theory Spec2Isabelle
  imports Main "HOL-Library.Multiset" "HOL-Library.Multiset_Order"
    "HOL-Library.Char_ord" "HOL-Library.List_Lexorder" "HOL-Library.Sublist"
begin

section \<open>rf: dependency discovery over a directory tree and makefile synthesis\<close>

text \<open>
  A shallow embedding of \<^verbatim>\<open>src/rf/rflib.py\<close>. The functions of the module keep
  their names. What the module gets from the Python library and the operating system
  (\<^verbatim>\<open>os.path\<close>, \<^verbatim>\<open>os.listdir\<close>, \<^verbatim>\<open>os.access\<close>, the iteration order of a
  \<^verbatim>\<open>set\<close>, the \<^verbatim>\<open>make\<close> subprocess) is modelled explicitly below.
\<close>

subsection \<open>Strings\<close>

abbreviation NL :: char where "NL \<equiv> CHR 0x0A"
abbreviation TAB :: char where "TAB \<equiv> CHR 0x09"

text \<open>\<^verbatim>\<open>sep.join(xs)\<close>\<close>

fun join :: "string \<Rightarrow> string list \<Rightarrow> string" where
  "join sep [] = []"
| "join sep [x] = x"
| "join sep (x # y # ys) = x @ sep @ join sep (y # ys)"

text \<open>\<^verbatim>\<open>s.split(sep)\<close> for a separator of one character.\<close>

fun split :: "char \<Rightarrow> string \<Rightarrow> string list" where
  "split sep [] = [[]]"
| "split sep (c # cs) =
     (if c = sep then [] # split sep cs
      else (case split sep cs of [] \<Rightarrow> [[c]] | w # ws \<Rightarrow> (c # w) # ws))"

subsection \<open>The filesystem\<close>

text \<open>
  The module reads the filesystem through \<^verbatim>\<open>os.path.isdir\<close>, \<^verbatim>\<open>os.path.exists\<close>,
  \<^verbatim>\<open>os.path.islink\<close>, \<^verbatim>\<open>os.path.realpath\<close>, \<^verbatim>\<open>os.access\<close> and \<^verbatim>\<open>os.listdir\<close>.
  They are modelled over a tree of inodes with symbolic links, as POSIX path resolution
  defines them:
  \<^item> a \<open>File\<close> is anything that is neither a directory nor a symbolic link; its flag says
    whether the process may execute it;
  \<^item> a \<open>Dir\<close> has a search permission, a read permission and its entries;
  \<^item> a \<open>Symlink\<close> has its target text.
  The order in which a directory is listed is not part of the tree: it is the field
  \<open>listing_order\<close> of the filesystem state, a function that arranges the names.
\<close>

datatype errno = ENOENT | ENOTDIR | EACCES | ELOOP | EPIPE

datatype py_error = AssertionError | OSError errno | UnicodeEncodeError

datatype inode =
    File bool
  | Dir bool bool "(string \<times> inode) list"
  | Symlink string

record filesystem =
  fs_root :: inode
  fs_cwd :: "string list"
  listing_order :: "string list \<Rightarrow> string list"

text \<open>The inode at a path without links, given as its names from the root.\<close>

fun inode_at :: "inode \<Rightarrow> string list \<Rightarrow> inode option" where
  "inode_at n [] = Some n"
| "inode_at n (c # cs) =
     (case n of
        Dir s r es \<Rightarrow> (case map_of es c of None \<Rightarrow> None | Some m \<Rightarrow> inode_at m cs)
      | _ \<Rightarrow> None)"

text \<open>The kernel follows at most this many symbolic links in one resolution (Linux).\<close>

definition MAXSYMLINKS :: nat where
  "MAXSYMLINKS = 40"

definition is_abs :: "string \<Rightarrow> bool" where
  "is_abs p \<longleftrightarrow> (case p of [] \<Rightarrow> False | c # _ \<Rightarrow> c = CHR ''/'')"

text \<open>
  Path resolution. \<open>walk r f cur cs\<close> resolves the components \<open>cs\<close> from the directory
  at \<open>cur\<close>, with \<open>f\<close> links left to follow, and returns the links left and the place
  reached. An empty component (from \<^verbatim>\<open>//\<close> or a trailing \<^verbatim>\<open>/\<close>) and \<^verbatim>\<open>.\<close> stay,
  \<^verbatim>\<open>..\<close> goes up, a link is replaced by the components of its target. A component
  can be looked up only in a directory (\<open>ENOTDIR\<close>) that may be searched (\<open>EACCES\<close>).
\<close>

fun walk :: "inode \<Rightarrow> nat \<Rightarrow> string list \<Rightarrow> string list \<Rightarrow> errno + (nat \<times> string list)" where
  "walk r f cur [] = Inr (f, cur)"
| "walk r f cur (c # cs) =
     (case inode_at r cur of
        Some (Dir s rd es) \<Rightarrow>
          if c = [] then walk r f cur cs
          else if \<not> s then Inl EACCES
          else if c = ''.'' then walk r f cur cs
          else if c = ''..'' then walk r f (butlast cur) cs
          else (case map_of es c of
                  None \<Rightarrow> Inl ENOENT
                | Some (Symlink t) \<Rightarrow>
                    if t = [] then Inl ENOENT
                    else if f = 0 then Inl ELOOP
                    else walk r (f - 1) (if is_abs t then [] else cur) (split CHR ''/'' t @ cs)
                | Some _ \<Rightarrow> walk r f (cur @ [c]) cs)
      | _ \<Rightarrow> Inl ENOTDIR)"

definition plain :: "string \<Rightarrow> bool" where
  "plain c \<longleftrightarrow> c \<noteq> [] \<and> c \<noteq> ''.'' \<and> c \<noteq> ''..''"

definition start_dir :: "filesystem \<Rightarrow> string \<Rightarrow> string list" where
  "start_dir fs p = (if is_abs p then [] else fs_cwd fs)"

definition resolve :: "filesystem \<Rightarrow> string \<Rightarrow> errno + (nat \<times> string list)" where
  "resolve fs p =
     (if p = [] then Inl ENOENT
      else walk (fs_root fs) MAXSYMLINKS (start_dir fs p) (split CHR ''/'' p))"

text \<open>\<^verbatim>\<open>os.stat\<close> follows a link in the last component, \<^verbatim>\<open>os.lstat\<close> does not.\<close>

definition os_stat :: "filesystem \<Rightarrow> string \<Rightarrow> errno + inode" where
  "os_stat fs p =
     (case resolve fs p of
        Inl e \<Rightarrow> Inl e
      | Inr (f, cur) \<Rightarrow>
          (case inode_at (fs_root fs) cur of None \<Rightarrow> Inl ENOENT | Some n \<Rightarrow> Inr n))"

definition os_lstat :: "filesystem \<Rightarrow> string \<Rightarrow> errno + inode" where
  "os_lstat fs p =
     (if p = [] then Inl ENOENT
      else
        (let cs = split CHR ''/'' p; c = last cs
         in case walk (fs_root fs) MAXSYMLINKS (start_dir fs p) (butlast cs) of
              Inl e \<Rightarrow> Inl e
            | Inr (f, cur) \<Rightarrow>
                (case inode_at (fs_root fs) cur of
                   Some (Dir s rd es) \<Rightarrow>
                     (case map_of es c of
                        Some (Symlink t) \<Rightarrow>
                          if plain c \<and> s then Inr (Symlink t) else os_stat fs p
                      | _ \<Rightarrow> os_stat fs p)
                 | _ \<Rightarrow> os_stat fs p)))"

text \<open>
  \<^verbatim>\<open>os.path.isdir\<close>, \<^verbatim>\<open>os.path.exists\<close> and \<^verbatim>\<open>os.path.islink\<close> call
  \<^verbatim>\<open>os.stat\<close> (\<^verbatim>\<open>os.lstat\<close>) and return \<^verbatim>\<open>False\<close> on every \<^verbatim>\<open>OSError\<close>;
  \<^verbatim>\<open>os.access\<close> returns \<^verbatim>\<open>False\<close> when the call fails. None of them raises.
\<close>

definition os_path_isdir :: "filesystem \<Rightarrow> string \<Rightarrow> bool" where
  "os_path_isdir fs p = (case os_stat fs p of Inr (Dir s rd es) \<Rightarrow> True | _ \<Rightarrow> False)"

definition os_path_exists :: "filesystem \<Rightarrow> string \<Rightarrow> bool" where
  "os_path_exists fs p = (case os_stat fs p of Inr n \<Rightarrow> True | Inl e \<Rightarrow> False)"

definition os_path_islink :: "filesystem \<Rightarrow> string \<Rightarrow> bool" where
  "os_path_islink fs p = (case os_lstat fs p of Inr (Symlink t) \<Rightarrow> True | _ \<Rightarrow> False)"

text \<open>\<^verbatim>\<open>os.access(p, os.X_OK)\<close>\<close>

definition os_access_X_OK :: "filesystem \<Rightarrow> string \<Rightarrow> bool" where
  "os_access_X_OK fs p =
     (case os_stat fs p of Inr (File x) \<Rightarrow> x | Inr (Dir s rd es) \<Rightarrow> s | _ \<Rightarrow> False)"

text \<open>\<^verbatim>\<open>os.listdir\<close> raises the \<^verbatim>\<open>OSError\<close> of the failed call.\<close>

definition os_listdir :: "filesystem \<Rightarrow> string \<Rightarrow> py_error + string list" where
  "os_listdir fs p =
     (case os_stat fs p of
        Inl e \<Rightarrow> Inl (OSError e)
      | Inr (Dir s rd es) \<Rightarrow>
          if rd then Inr (listing_order fs (map fst es)) else Inl (OSError EACCES)
      | Inr _ \<Rightarrow> Inl (OSError ENOTDIR))"

definition os_path_join :: "string \<Rightarrow> string \<Rightarrow> string" where
  "os_path_join a b =
     (if is_abs b then b
      else if a = [] \<or> last a = CHR ''/'' then a @ b
      else a @ ''/'' @ b)"

text \<open>
  \<^verbatim>\<open>os.path.realpath\<close> (not strict) is \<^verbatim>\<open>abspath\<close> of the result of
  \<^verbatim>\<open>posixpath._joinrealpath\<close>, which goes through the components of its argument and
  keeps the path resolved so far: an empty name and \<^verbatim>\<open>.\<close> are skipped, \<^verbatim>\<open>..\<close> drops the
  last name, a name that \<^verbatim>\<open>os.lstat\<close> does not show to be a link is appended, whether it
  exists or not, and a link is replaced by the resolution of its target. There is no
  limit on the number of links. The links being resolved are kept in \<^verbatim>\<open>seen\<close>; at a link
  that is met again while it is being resolved the function gives up and returns the
  text \<^verbatim>\<open>join(newpath, rest)\<close> unresolved, and every caller up to the first one appends
  its own rest with \<^verbatim>\<open>join\<close>. (Python also caches in \<^verbatim>\<open>seen\<close> the resolution of each
  link it has resolved; the cache changes no result and is left out.) The resolved path
  is kept here as the list of its names from the root.
\<close>

fun lexical :: "string list \<Rightarrow> string list \<Rightarrow> string list" where
  "lexical cur [] = cur"
| "lexical cur (c # cs) =
     (if c = [] \<or> c = ''.'' then lexical cur cs
      else if c = ''..'' then lexical (butlast cur) cs
      else lexical (cur @ [c]) cs)"

definition path_string :: "string list \<Rightarrow> string" where
  "path_string cs = (if cs = [] then ''/'' else concat (map (\<lambda>c. ''/'' @ c) cs))"

text \<open>\<^verbatim>\<open>os.path.normpath\<close> of an absolute path: exactly two leading slashes are kept.\<close>

definition normpath :: "string \<Rightarrow> string" where
  "normpath s =
     (if take 2 s = ''//'' \<and> take 3 s \<noteq> ''///'' then ''/'' else [])
       @ path_string (lexical [] (split CHR ''/'' s))"

text \<open>The entries of the directory at a path, when every directory on the way may be
  searched.\<close>

fun dir_at :: "inode \<Rightarrow> string list \<Rightarrow> (string \<times> inode) list option" where
  "dir_at n [] = (case n of Dir s rd es \<Rightarrow> if s then Some es else None | _ \<Rightarrow> None)"
| "dir_at n (c # cs) =
     (case n of
        Dir s rd es \<Rightarrow>
          if s then (case map_of es c of None \<Rightarrow> None | Some m \<Rightarrow> dir_at m cs) else None
      | _ \<Rightarrow> None)"

text \<open>\<^verbatim>\<open>os.lstat(newpath)\<close> succeeds and shows a link: the target of the link.\<close>

definition readlink_at :: "inode \<Rightarrow> string list \<Rightarrow> string \<Rightarrow> string option" where
  "readlink_at r path name =
     (case dir_at r path of
        None \<Rightarrow> None
      | Some es \<Rightarrow> (case map_of es name of Some (Symlink t) \<Rightarrow> Some t | _ \<Rightarrow> None))"

definition links :: "inode \<Rightarrow> string list set" where
  "links r = {p. \<exists>t. inode_at r p = Some (Symlink t)}"

function joinrealpath ::
  "inode \<Rightarrow> string list list \<Rightarrow> string list \<Rightarrow> string list \<Rightarrow> string + string list" where
  "joinrealpath r seen path [] = Inr path"
| "joinrealpath r seen path (name # rest) =
     (if name = [] \<or> name = ''.'' then joinrealpath r seen path rest
      else if name = ''..'' then joinrealpath r seen (butlast path) rest
      else (case readlink_at r path name of
              None \<Rightarrow> joinrealpath r seen (path @ [name]) rest
            | Some t \<Rightarrow>
                if path @ [name] \<in> set seen
                then Inl (os_path_join (path_string (path @ [name])) (join ''/'' rest))
                else (case joinrealpath r ((path @ [name]) # seen)
                             (if is_abs t then [] else path) (split CHR ''/'' t) of
                        Inl unresolved \<Rightarrow> Inl (os_path_join unresolved (join ''/'' rest))
                      | Inr path' \<Rightarrow> joinrealpath r seen path' rest)))"
  by pat_completeness auto
termination
proof (relation "inv_image (less_than <*lex*> less_than)
    (\<lambda>(r, seen, path, rest). (card (links r - set seen), length rest))")
  show "wf (inv_image (less_than <*lex*> less_than)
    (\<lambda>(r, seen, path, rest). (card (links r - set seen), length rest)))"
    by (intro wf_inv_image wf_lex_prod wf_less_than)
next
  fix r seen path name rest t
  assume rl: "readlink_at r path name = Some t" and ns: "path @ [name] \<notin> set seen"
  have fin: "finite {p. inode_at n p \<noteq> None}" for n
  proof (induction n)
    case (File x)
    have "{p. inode_at (File x) p \<noteq> None} \<subseteq> {[]}"
    proof
      fix p assume "p \<in> {p. inode_at (File x) p \<noteq> None}"
      then show "p \<in> {[]}" by (cases p) auto
    qed
    then show ?case by (rule finite_subset) simp
  next
    case (Symlink t)
    have "{p. inode_at (Symlink t) p \<noteq> None} \<subseteq> {[]}"
    proof
      fix p assume "p \<in> {p. inode_at (Symlink t) p \<noteq> None}"
      then show "p \<in> {[]}" by (cases p) auto
    qed
    then show ?case by (rule finite_subset) simp
  next
    case (Dir s rd es)
    have IH: "finite {p. inode_at m p \<noteq> None}" if "(c, m) \<in> set es" for c m
      using Dir that by (force simp: snds.simps)
    let ?S = "insert [] (\<Union>e \<in> set es. (\<lambda>p. fst e # p) ` {p. inode_at (snd e) p \<noteq> None})"
    have "{p. inode_at (Dir s rd es) p \<noteq> None} \<subseteq> ?S"
    proof
      fix p assume a: "p \<in> {p. inode_at (Dir s rd es) p \<noteq> None}"
      show "p \<in> ?S"
      proof (cases p)
        case Nil
        then show ?thesis by simp
      next
        case (Cons c cs)
        with a obtain m where m: "map_of es c = Some m" and "inode_at m cs \<noteq> None"
          by (auto split: option.splits)
        with map_of_SomeD[OF m] Cons show ?thesis by force
      qed
    qed
    moreover have "finite ?S" using IH by auto
    ultimately show ?case by (rule finite_subset)
  qed
  have "finite (links r)"
    by (rule finite_subset[OF _ fin[of r]]) (auto simp: links_def)
  moreover have snoc: "inode_at n (xs @ [x]) =
     (case inode_at n xs of Some (Dir s rd es) \<Rightarrow> map_of es x | _ \<Rightarrow> None)" for n xs x
    by (induction xs arbitrary: n) (auto split: inode.splits option.splits)
  have dir: "\<exists>rd. inode_at n q = Some (Dir True rd es)" if "dir_at n q = Some es" for n q es
    using that by (induction q arbitrary: n) (auto split: inode.splits if_splits option.splits)
  from rl have "path @ [name] \<in> links r"
    by (auto simp: readlink_at_def links_def snoc split: option.splits inode.splits dest!: dir)
  ultimately have "card (links r - set ((path @ [name]) # seen)) < card (links r - set seen)"
    using ns by (intro psubset_card_mono) auto
  then show "((r, (path @ [name]) # seen, if is_abs t then [] else path, split CHR ''/'' t),
      (r, seen, path, name # rest)) \<in> inv_image (less_than <*lex*> less_than)
    (\<lambda>(r, seen, path, rest). (card (links r - set seen), length rest))"
    by simp
qed auto

definition os_path_realpath :: "filesystem \<Rightarrow> string \<Rightarrow> string" where
  "os_path_realpath fs p =
     (case joinrealpath (fs_root fs) [] (start_dir fs p) (split CHR ''/'' p) of
        Inl unresolved \<Rightarrow> normpath unresolved
      | Inr path \<Rightarrow> path_string path)"

subsection \<open>Node classifier and dependency discovery\<close>

text \<open>\<^verbatim>\<open>is_ready_to_run(node)\<close>; \<open>None\<close> is Python's \<^verbatim>\<open>None\<close>.\<close>

definition is_ready_to_run :: "filesystem \<Rightarrow> string option \<Rightarrow> bool" where
  "is_ready_to_run fs node =
     (case node of
        None \<Rightarrow> False
      | Some n \<Rightarrow>
          os_path_isdir fs (n @ ''/__'') \<and>
          \<not> os_path_exists fs (n @ ''/_'') \<and>
          os_access_X_OK fs (n @ ''/__/driver''))"

text \<open>
  \<^verbatim>\<open>dependency_links(node)\<close>, as the list its caller makes of the generator. The
  \<^verbatim>\<open>OSError\<close> of \<^verbatim>\<open>os.listdir\<close> passes through.
\<close>

definition dependency_links :: "filesystem \<Rightarrow> string \<Rightarrow> py_error + string list" where
  "dependency_links fs node =
     (let depdir = node @ ''/__/dep''
      in if os_path_isdir fs depdir then
           (case os_listdir fs depdir of
              Inl e \<Rightarrow> Inl e
            | Inr xs \<Rightarrow>
                Inr (map (\<lambda>x. os_path_realpath fs (depdir @ ''/'' @ x))
                       (filter (\<lambda>x. os_path_islink fs (depdir @ ''/'' @ x) \<and>
                                     os_path_isdir fs (depdir @ ''/'' @ x)) xs)))
         else Inr [])"

text \<open>\<^verbatim>\<open>belongs_to_tree(dirname, basedir)\<close>; the \<^verbatim>\<open>assert\<close> raises.\<close>

definition belongs_to_tree :: "filesystem \<Rightarrow> string \<Rightarrow> string \<Rightarrow> py_error + bool" where
  "belongs_to_tree fs dirname basedir =
     (if os_path_isdir fs dirname \<and> os_path_isdir fs basedir
      then Inr (prefix (os_path_realpath fs basedir @ ''/'') (os_path_realpath fs dirname @ ''/''))
      else Inl AssertionError)"

text \<open>
  The list comprehension of \<^verbatim>\<open>find_dependencies\<close> over \<^verbatim>\<open>[parent] + l\<close>: the
  condition is evaluated element by element, with \<^verbatim>\<open>and\<close> from left to right, and the
  first \<^verbatim>\<open>AssertionError\<close> ends it.
\<close>

fun filter_dependencies :: "filesystem \<Rightarrow> string \<Rightarrow> string option list \<Rightarrow> py_error + string list" where
  "filter_dependencies fs node [] = Inr []"
| "filter_dependencies fs node (x # xs) =
     (case x of
        None \<Rightarrow> filter_dependencies fs node xs
      | Some y \<Rightarrow>
          if is_ready_to_run fs (Some (os_path_realpath fs y)) then
            (case belongs_to_tree fs y node of
               Inl e \<Rightarrow> Inl e
             | Inr b \<Rightarrow>
                 (case filter_dependencies fs node xs of
                    Inl e \<Rightarrow> Inl e
                  | Inr ys \<Rightarrow> Inr (if b then y # ys else ys)))
          else filter_dependencies fs node xs)"

type_synonym pair = "string list \<times> string"
type_synonym item = "string option \<times> string"

text \<open>What \<^verbatim>\<open>queue.extend\<close> appends for the names \<open>xs\<close> that \<^verbatim>\<open>os.listdir(child)\<close> returned.\<close>

definition subdirectories :: "filesystem \<Rightarrow> string \<Rightarrow> string list \<Rightarrow> item list" where
  "subdirectories fs child xs =
     map (\<lambda>xx. (Some child, xx))
       (filter (os_path_isdir fs)
          (map (os_path_join child) (filter (\<lambda>x. x \<notin> set [''_'', ''__'']) xs)))"

text \<open>
  The body of the \<^verbatim>\<open>while\<close> loop for the item \<open>(parent, child)\<close> taken from the queue:
  the pairs it yields, and either the error it raises or the items it appends.
\<close>

definition visit :: "filesystem \<Rightarrow> string \<Rightarrow> bool \<Rightarrow> item \<Rightarrow> pair list \<times> (py_error + item list)" where
  "visit fs node recursive it =
     (case it of (parent, child) \<Rightarrow>
       (case dependency_links fs child of
          Inl e \<Rightarrow> ([], Inl e)
        | Inr l \<Rightarrow>
           (case filter_dependencies fs node (parent # map Some l) of
              Inl e \<Rightarrow> ([], Inl e)
            | Inr dependencies \<Rightarrow>
               (case (if is_ready_to_run fs (Some (os_path_realpath fs child))
                      then belongs_to_tree fs child node else Inr False) of
                  Inl e \<Rightarrow> ([], Inl e)
                | Inr b \<Rightarrow>
                   (let out = (if b then [(dependencies, child)] else [])
                    in if recursive then
                         (case os_listdir fs child of
                            Inl e \<Rightarrow> (out, Inl e)
                          | Inr xs \<Rightarrow> (out, Inr (subdirectories fs child xs)))
                       else (out, Inr []))))))"

text \<open>
  The \<^verbatim>\<open>while queue:\<close> loop. The result is the list of the pairs yielded and how the
  generator ended: \<open>None\<close> when the queue ran empty, \<open>Some e\<close> when \<open>e\<close> was raised. A
  loop that does not end has no result (\<open>None\<close> of the outer option).
\<close>

partial_function (option) find_loop ::
  "filesystem \<Rightarrow> string \<Rightarrow> bool \<Rightarrow> item list \<Rightarrow> pair list \<Rightarrow> (pair list \<times> py_error option) option" where
  "find_loop fs node recursive queue acc =
     (case queue of
        [] \<Rightarrow> Some (acc, None)
      | it # rest \<Rightarrow>
          (case visit fs node recursive it of
             (out, Inl e) \<Rightarrow> Some (acc @ out, Some e)
           | (out, Inr new) \<Rightarrow> find_loop fs node recursive (rest @ new) (acc @ out)))"

declare find_loop.simps [code]

definition find_dependencies :: "filesystem \<Rightarrow> string \<Rightarrow> bool \<Rightarrow> (pair list \<times> py_error option) option" where
  "find_dependencies fs node recursive =
     (if os_path_isdir fs node then find_loop fs node recursive [(None, node)] []
      else Some ([], Some AssertionError))"

subsection \<open>Rule synthesis\<close>

definition nohup_out :: "string \<Rightarrow> string" where
  "nohup_out node = node @ ''/_/nohup.out''"

text \<open>
  \<^verbatim>\<open>rule_string\<close> fills a template of four \<^verbatim>\<open>%s\<close> places with
  \<^verbatim>\<open>(nohup_out(node), dep_string, node, node)\<close>.
\<close>

definition rule_string :: "string list \<Rightarrow> string \<Rightarrow> string" where
  "rule_string dependencies node =
     (let dep_string = join '' '' (map nohup_out dependencies)
      in ''.ONESHELL:'' @ [NL] @
         nohup_out node @ '': '' @ dep_string @ [NL] @
         [TAB] @ ''date'' @ [NL] @
         [TAB] @ ''mkdir '' @ node @ ''/_'' @ [NL] @
         [TAB] @ ''cd '' @ node @ ''/_'' @ [NL] @
         [TAB] @ ''nohup ../__/driver'' @ [NL] @
         [NL])"

text \<open>
  A Python \<^verbatim>\<open>set\<close> of strings is a finite \<open>string set\<close>. Python does not fix the
  order in which a set is iterated (for strings it changes with the hash seed of the
  process), so the order is a parameter \<open>enum\<close> of the model: a function that lists
  the elements of a finite set, each once.
\<close>

definition valid_enum :: "(string set \<Rightarrow> string list) \<Rightarrow> bool" where
  "valid_enum enum \<longleftrightarrow> (\<forall>S. finite S \<longrightarrow> set (enum S) = S \<and> distinct (enum S))"

record mk_state =
  makefile_string :: string
  dependency_set :: "string set"
  child_set :: "string set"
  emitted :: "(string list \<times> string) list"

text \<open>
  The state of the loops of \<^verbatim>\<open>makefile\<close>. The field \<open>emitted\<close> is a ghost field:
  it records the arguments of each call of \<^verbatim>\<open>rule_string\<close>, in call order, and
  nothing reads it.
\<close>

definition mk_init :: mk_state where
  "mk_init = \<lparr>makefile_string = [], dependency_set = {}, child_set = {}, emitted = []\<rparr>"

definition emit_rule :: "string list \<Rightarrow> string \<Rightarrow> mk_state \<Rightarrow> mk_state" where
  "emit_rule dependencies node st =
     st\<lparr>makefile_string := makefile_string st @ rule_string dependencies node,
        emitted := emitted st @ [(dependencies, node)]\<rparr>"

text \<open>The body of the first loop, for one pair of the stream.\<close>

definition mk_step :: "string list \<times> string \<Rightarrow> mk_state \<Rightarrow> mk_state" where
  "mk_step pair st =
     (case pair of (dependencies, child) \<Rightarrow>
        (let st1 = emit_rule dependencies child st;
             st2 = fold (\<lambda>p s. s\<lparr>dependency_set := insert p (dependency_set s)\<rparr>)
                     dependencies st1
         in st2\<lparr>child_set := insert child (child_set st2)\<rparr>))"

text \<open>Both loops: the stream, then the dependencies that were never a child.\<close>

definition mk_loops :: "(string set \<Rightarrow> string list) \<Rightarrow> (string list \<times> string) list \<Rightarrow> mk_state" where
  "mk_loops enum dependency_iter =
     (let st = fold mk_step dependency_iter mk_init
      in fold (\<lambda>node s. emit_rule [] node s) (enum (dependency_set st - child_set st)) st)"

definition all_prerequisites :: "(string set \<Rightarrow> string list) \<Rightarrow> (string list \<times> string) list \<Rightarrow> string list" where
  "all_prerequisites enum dependency_iter =
     (let st = mk_loops enum dependency_iter
      in map nohup_out (enum (dependency_set st \<union> child_set st)))"

definition makefile :: "(string set \<Rightarrow> string list) \<Rightarrow> (string list \<times> string) list \<Rightarrow> string" where
  "makefile enum dependency_iter =
     (let st = mk_loops enum dependency_iter
      in ''all: '' @ join '' '' (all_prerequisites enum dependency_iter) @ [NL, NL] @
         makefile_string st)"


text \<open>Insertion order: the elements of a list in the order of their first occurrence.\<close>

fun first_seen :: "string list \<Rightarrow> string list" where
  "first_seen [] = []"
| "first_seen (x # xs) = x # filter (\<lambda>y. y \<noteq> x) (first_seen xs)"

subsection \<open>Execution bridge\<close>

text \<open>
  The strings of the model are the bytes of the names as the filesystem stores them;
  Python holds them decoded with the filesystem encoding (UTF-8) and the
  \<^verbatim>\<open>surrogateescape\<close> handler, which maps different bytes to different texts.
  \<^verbatim>\<open>makefile_string.encode()\<close> is strict UTF-8: it raises \<^verbatim>\<open>UnicodeEncodeError\<close>
  exactly when the text has an escaped byte, that is, when the bytes are not valid UTF-8.
\<close>

definition continuation :: "char \<Rightarrow> bool" where
  "continuation c = (128 \<le> (of_char c :: nat) \<and> (of_char c :: nat) \<le> 191)"

definition between :: "nat \<Rightarrow> char \<Rightarrow> nat \<Rightarrow> bool" where
  "between lo c hi = (lo \<le> (of_char c :: nat) \<and> (of_char c :: nat) \<le> hi)"

fun valid_utf8 :: "string \<Rightarrow> bool" where
  "valid_utf8 [] = True"
| "valid_utf8 (c # cs) =
     (let b = (of_char c :: nat) in
      if b < 128 then valid_utf8 cs
      else if 194 \<le> b \<and> b \<le> 223 then
        (case cs of
           c1 # r \<Rightarrow> continuation c1 \<and> valid_utf8 r
         | _ \<Rightarrow> False)
      else if 224 \<le> b \<and> b \<le> 239 then
        (case cs of
           c1 # c2 # r \<Rightarrow>
             between (if b = 224 then 160 else 128) c1 (if b = 237 then 159 else 191)
             \<and> continuation c2 \<and> valid_utf8 r
         | _ \<Rightarrow> False)
      else if 240 \<le> b \<and> b \<le> 244 then
        (case cs of
           c1 # c2 # c3 # r \<Rightarrow>
             between (if b = 240 then 144 else 128) c1 (if b = 244 then 143 else 191)
             \<and> continuation c2 \<and> continuation c3 \<and> valid_utf8 r
         | _ \<Rightarrow> False)
      else False)"

definition encode :: "string \<Rightarrow> py_error + string" where
  "encode s = (if valid_utf8 s then Inr s else Inl UnicodeEncodeError)"

text \<open>
  The executor is the subprocess \<^verbatim>\<open>make -f -\<close>, given by what the calls of
  \<^verbatim>\<open>run_make\<close> on it do: \<^verbatim>\<open>subprocess.Popen\<close> raises an \<^verbatim>\<open>OSError\<close> when the
  program cannot be started, \<^verbatim>\<open>p.stdin.write\<close> and \<^verbatim>\<open>p.stdin.close\<close> (which flushes
  the buffer) raise when the pipe is broken, and \<^verbatim>\<open>p.wait()\<close> blocks until the
  subprocess exits and returns its exit status, which depends on the bytes it read.
\<close>

record executor =
  popen_error :: "string list \<Rightarrow> py_error option"
  write_error :: "string \<Rightarrow> py_error option"
  close_error :: "string \<Rightarrow> py_error option"
  returncode :: "string \<Rightarrow> int"

text \<open>The calls on the subprocess that returned, in order.\<close>

datatype event = Popen "string list" | Write string | Close | Wait int

text \<open>
  \<^verbatim>\<open>run_make\<close> has no \<^verbatim>\<open>return\<close> statement: when nothing raises it returns \<^verbatim>\<open>None\<close>,
  here the unit value. The value of \<^verbatim>\<open>p.wait()\<close> is not bound.
\<close>

definition run_make :: "executor \<Rightarrow> string \<Rightarrow> event list \<times> (py_error + unit)" where
  "run_make ex script =
     (let argv = [''make'', ''-f'', ''-''] in
      case popen_error ex argv of
        Some e \<Rightarrow> ([], Inl e)
      | None \<Rightarrow>
          (case encode script of
             Inl e \<Rightarrow> ([Popen argv], Inl e)
           | Inr bytes \<Rightarrow>
               (case write_error ex bytes of
                  Some e \<Rightarrow> ([Popen argv], Inl e)
                | None \<Rightarrow>
                    (case close_error ex bytes of
                       Some e \<Rightarrow> ([Popen argv, Write bytes], Inl e)
                     | None \<Rightarrow>
                         ([Popen argv, Write bytes, Close, Wait (returncode ex bytes)],
                          Inr ())))))"

text \<open>The arguments as \<^verbatim>\<open>parser.parse_args()\<close> returns them.\<close>

record args =
  args_node :: string
  args_recursive :: bool
  args_dry_run :: bool
  args_verbose :: bool

text \<open>
  \<^verbatim>\<open>run(args)\<close>. \<^verbatim>\<open>makefile\<close> consumes the generator, so an error raised by
  \<^verbatim>\<open>find_dependencies\<close> leaves \<^verbatim>\<open>run\<close> before \<^verbatim>\<open>make\<close> is started.
\<close>

definition run ::
  "(string set \<Rightarrow> string list) \<Rightarrow> executor \<Rightarrow> filesystem \<Rightarrow> args
     \<Rightarrow> (event list \<times> (py_error + unit)) option" where
  "run enum ex fs a =
     (case find_dependencies fs (os_path_realpath fs (args_node a)) (args_recursive a) of
        None \<Rightarrow> None
      | Some (pairs, Some e) \<Rightarrow> Some ([], Inl e)
      | Some (pairs, None) \<Rightarrow> Some (run_make ex (makefile enum pairs)))"

text \<open>
  \<^verbatim>\<open>main()\<close> after the arguments are parsed, with the exit status of the process: 0
  when \<^verbatim>\<open>main\<close> returns, 1 when an exception is not caught. Nothing calls
  \<^verbatim>\<open>sys.exit\<close>.
\<close>

definition main ::
  "(string set \<Rightarrow> string list) \<Rightarrow> executor \<Rightarrow> filesystem \<Rightarrow> args \<Rightarrow> int option" where
  "main enum ex fs a =
     (case run enum ex fs a of
        None \<Rightarrow> None
      | Some (events, Inl e) \<Rightarrow> Some 1
      | Some (events, Inr u) \<Rightarrow> Some 0)"

section \<open>Definitions for the statements\<close>

text \<open>The dependency paths and the child paths of a stream of pairs.\<close>

definition seen_dependencies :: "(string list \<times> string) list \<Rightarrow> string set" where
  "seen_dependencies ps = (\<Union>p \<in> set ps. set (fst p))"

definition seen_children :: "(string list \<times> string) list \<Rightarrow> string set" where
  "seen_children ps = snd ` set ps"

text \<open>
  The order of the script as the specification states it (claim C6): the rules of the
  stream in stream order, then the rules of the dependencies that were never a child in
  the order they were first seen, and an \<^verbatim>\<open>all:\<close> rule that lists dependencies and
  children in insertion order.
\<close>

definition trivial_in_insertion_order :: "(string list \<times> string) list \<Rightarrow> string list" where
  "trivial_in_insertion_order ps =
     filter (\<lambda>d. d \<notin> seen_children ps) (first_seen (concat (map fst ps)))"

definition union_in_insertion_order :: "(string list \<times> string) list \<Rightarrow> string list" where
  "union_in_insertion_order ps = first_seen (concat (map fst ps) @ map snd ps)"


text \<open>
  The text of a script as the specification describes it, line by line. Each line is
  ended by a newline. A rule is seven lines: the directive, the rule line with the
  marker of the node as target and the markers of the dependencies as prerequisites,
  four command lines after a tab, and an empty line. A script is the \<^verbatim>\<open>all:\<close> line, an
  empty line and the lines of its rules.
\<close>

definition unlines :: "string list \<Rightarrow> string" where
  "unlines ls = concat (map (\<lambda>l. l @ [NL]) ls)"

definition marker :: "string \<Rightarrow> string" where
  "marker n = n @ ''/_/nohup.out''"

definition script_rule :: "string list \<times> string \<Rightarrow> string list" where
  "script_rule r =
     [''.ONESHELL:'',
      marker (snd r) @ '': '' @ join '' '' (map marker (fst r)),
      TAB # ''date'',
      TAB # ''mkdir '' @ snd r @ ''/_'',
      TAB # ''cd '' @ snd r @ ''/_'',
      TAB # ''nohup ../__/driver'',
      []]"

definition script_text :: "string list \<Rightarrow> (string list \<times> string) list \<Rightarrow> string" where
  "script_text alls rules =
     unlines ((''all: '' @ join '' '' (map marker alls)) # [] # concat (map script_rule rules))"

text \<open>The lines of a text that begin with a tab.\<close>

definition tab_indented :: "string list \<Rightarrow> string list" where
  "tab_indented ls = filter (\<lambda>l. take 1 l = [TAB]) ls"

text \<open>
  Eligibility as the specification states it (claims C1 and C3): a directory with a declaration
  subdirectory, without a results subdirectory, with an executable driver entry.
\<close>

definition eligible :: "filesystem \<Rightarrow> string \<Rightarrow> bool" where
  "eligible fs p \<longleftrightarrow>
     os_path_isdir fs p \<and> os_path_isdir fs (p @ ''/__'') \<and>
     \<not> os_path_isdir fs (p @ ''/_'') \<and> os_access_X_OK fs (p @ ''/__/driver'')"

text \<open>
  The items the loop takes from the queue when it starts with the items \<open>Q\<close>, the pairs
  one item yields, and the paths made by joining listed names onto the root node.
\<close>

inductive_set visited :: "filesystem \<Rightarrow> string \<Rightarrow> bool \<Rightarrow> item set \<Rightarrow> item set"
  for fs :: filesystem and node :: string and recursive :: bool and Q :: "item set" where
  start: "it \<in> Q \<Longrightarrow> it \<in> visited fs node recursive Q"
| step: "it \<in> visited fs node recursive Q \<Longrightarrow> visit fs node recursive it = (out, Inr new)
         \<Longrightarrow> it' \<in> set new \<Longrightarrow> it' \<in> visited fs node recursive Q"

definition yields :: "filesystem \<Rightarrow> string \<Rightarrow> bool \<Rightarrow> item \<Rightarrow> pair set" where
  "yields fs node recursive it = set (fst (visit fs node recursive it))"

inductive_set joined :: "filesystem \<Rightarrow> string \<Rightarrow> string set"
  for fs :: filesystem and node :: string where
  root: "node \<in> joined fs node"
| child: "p \<in> joined fs node \<Longrightarrow> os_listdir fs p = Inr names \<Longrightarrow> x \<in> set names
          \<Longrightarrow> os_path_join p x \<in> joined fs node"

subsection \<open>Filesystems of the examples\<close>

text \<open>
  All directories may be read and searched unless said otherwise, the working directory
  is the root and names are listed in the order they are written. A node is a directory
  with \<^verbatim>\<open>__/driver\<close>.
\<close>

definition node_dir :: "(string \<times> inode) list \<Rightarrow> inode" where
  "node_dir es = Dir True True es"

definition fs_of :: "inode \<Rightarrow> filesystem" where
  "fs_of r = \<lparr>fs_root = r, fs_cwd = [], listing_order = (\<lambda>xs. xs)\<rparr>"

definition driver_dir :: inode where
  "driver_dir = node_dir [(''driver'', File True)]"

text \<open>\<^verbatim>\<open>/r\<close> is a node.\<close>

definition fs_plain :: filesystem where
  "fs_plain = fs_of (node_dir [(''r'', node_dir [(''__'', driver_dir)])])"

text \<open>\<^verbatim>\<open>/r\<close> has a driver and a regular file \<^verbatim>\<open>/r/_\<close>.\<close>

definition fs_marker_file :: filesystem where
  "fs_marker_file = fs_of (node_dir [(''r'', node_dir [(''__'', driver_dir), (''_'', File False)])])"

text \<open>\<^verbatim>\<open>/r\<close> has a driver and may not be searched.\<close>

definition fs_no_search :: filesystem where
  "fs_no_search = fs_of (node_dir [(''r'', Dir False True [(''__'', driver_dir)])])"

text \<open>\<^verbatim>\<open>/r/b\<close> has the dependency link \<^verbatim>\<open>/r/b/__/dep/x -> ../../../a\<close>.\<close>

definition fs_dep :: filesystem where
  "fs_dep = fs_of (node_dir [(''r'', node_dir [
      (''a'', node_dir [(''__'', driver_dir)]),
      (''b'', node_dir [(''__'', node_dir [(''driver'', File True),
                          (''dep'', node_dir [(''x'', Symlink ''../../../a'')])])])])])"


text \<open>The command line \<^verbatim>\<open>rf /r\<close>.\<close>

definition args_plain :: args where
  "args_plain = \<lparr>args_node = ''/r'', args_recursive = False, args_dry_run = False,
                  args_verbose = False\<rparr>"


text \<open>The command line \<^verbatim>\<open>rf\<close> with a node whose name is the byte \<^verbatim>\<open>0xFF\<close>, in the
  root directory.\<close>

definition fs_byte :: filesystem where
  "fs_byte = fs_of (node_dir [([CHR 0xFF], node_dir [(''__'', driver_dir)])])"

definition args_byte :: args where
  "args_byte = \<lparr>args_node = [CHR ''/'', CHR 0xFF], args_recursive = False,
                 args_dry_run = False, args_verbose = False\<rparr>"

text \<open>A \<^verbatim>\<open>make\<close> that starts, reads its input and exits with the given status.\<close>

definition make_exits :: "int \<Rightarrow> executor" where
  "make_exits status =
     \<lparr>popen_error = (\<lambda>argv. None), write_error = (\<lambda>bytes. None),
      close_error = (\<lambda>bytes. None), returncode = (\<lambda>bytes. status)\<rparr>"

text \<open>\<^verbatim>\<open>/r\<close> is a node and has a child node whose name has a newline and a tab in it.\<close>

definition newline_name :: string where
  "newline_name = ''a'' @ [NL, TAB] @ ''touch pwned #''"

definition fs_newline :: filesystem where
  "fs_newline = fs_of (node_dir [(''r'', node_dir [
      (''__'', driver_dir),
      (newline_name, node_dir [(''__'', driver_dir)])])])"

text \<open>The node \<^verbatim>\<open>/r\<close> with the node \<^verbatim>\<open>/r/a\<close> and the directory \<^verbatim>\<open>/r/z\<close>, which may be
  searched and may not be read.\<close>

definition fs_unreadable :: filesystem where
  "fs_unreadable = fs_of (node_dir [(''r'', node_dir [
      (''__'', driver_dir),
      (''a'', node_dir [(''__'', driver_dir)]),
      (''z'', Dir True False [])])])"

text \<open>
  The height of the physical tree below an inode, links not followed; well-formed
  filesystem states; and how many names a path is below the root node.
\<close>

fun height :: "inode \<Rightarrow> nat" where
  "height (Dir s rd es) = Suc (Max (set (0 # map (\<lambda>e. height (snd e)) es)))"
| "height (File x) = 0"
| "height (Symlink t) = 0"

fun names_ok :: "inode \<Rightarrow> bool" where
  "names_ok (Dir s rd es) =
     list_all (\<lambda>e. plain (fst e) \<and> CHR ''/'' \<notin> set (fst e) \<and> names_ok (snd e)) es"
| "names_ok (File x) = True"
| "names_ok (Symlink t) = True"

text \<open>
  In a filesystem state no name in a directory is empty, \<^verbatim>\<open>.\<close> or \<^verbatim>\<open>..\<close> or
  has a \<^verbatim>\<open>/\<close>, and a listing has each name of the directory once.
\<close>

definition valid_fs :: "filesystem \<Rightarrow> bool" where
  "valid_fs fs \<longleftrightarrow> names_ok (fs_root fs) \<and> (\<forall>xs. mset (listing_order fs xs) = mset xs)"



text \<open>
  The measure of a directory path for the termination of the traversal: the links the
  resolution has left, then how far the place reached is above the bottom of the tree.
\<close>

definition msr :: "filesystem \<Rightarrow> string \<Rightarrow> nat" where
  "msr fs p =
     (case resolve fs p of
        Inr (f, cur) \<Rightarrow> f * Suc (height (fs_root fs)) + (height (fs_root fs) - length cur)
      | Inl e \<Rightarrow> 0)"


text \<open>
  Two filesystem states with the same tree and working directory, which may list
  directories in different orders; and a pair without the order of its dependencies.
\<close>

definition same_tree :: "filesystem \<Rightarrow> filesystem \<Rightarrow> bool" where
  "same_tree fs fs' \<longleftrightarrow>
     fs_root fs = fs_root fs' \<and> fs_cwd fs = fs_cwd fs' \<and>
     (\<forall>xs. mset (listing_order fs xs) = mset xs) \<and>
     (\<forall>xs. mset (listing_order fs' xs) = mset xs)"

definition normal :: "pair \<Rightarrow> string multiset \<times> string" where
  "normal p = (mset (fst p), snd p)"

text \<open>The comprehension, without the order of evaluation.\<close>

definition raises :: "filesystem \<Rightarrow> string \<Rightarrow> string option \<Rightarrow> bool" where
  "raises fs node x \<longleftrightarrow>
     (case x of None \<Rightarrow> False
      | Some y \<Rightarrow> is_ready_to_run fs (Some (os_path_realpath fs y)) \<and>
          (\<exists>e. belongs_to_tree fs y node = Inl e))"

definition keeps :: "filesystem \<Rightarrow> string \<Rightarrow> string option \<Rightarrow> bool" where
  "keeps fs node x \<longleftrightarrow>
     (case x of None \<Rightarrow> False
      | Some y \<Rightarrow> is_ready_to_run fs (Some (os_path_realpath fs y)) \<and>
          belongs_to_tree fs y node = Inr True)"

text \<open>The body of the loop raises nothing for the item.\<close>

definition completes :: "filesystem \<Rightarrow> string \<Rightarrow> bool \<Rightarrow> item \<Rightarrow> bool" where
  "completes fs node recursive it \<longleftrightarrow> (\<exists>out new. visit fs node recursive it = (out, Inr new))"

section \<open>Properties of the rule synthesizer\<close>

lemma fold_insert_dependency_set:
  "dependency_set (fold (\<lambda>p s. s\<lparr>dependency_set := insert p (dependency_set s)\<rparr>) ds st)
     = set ds \<union> dependency_set st"
  by (induction ds arbitrary: st) auto

lemma fold_insert_other:
  "child_set (fold (\<lambda>p s. s\<lparr>dependency_set := insert p (dependency_set s)\<rparr>) ds st) = child_set st"
  "emitted (fold (\<lambda>p s. s\<lparr>dependency_set := insert p (dependency_set s)\<rparr>) ds st) = emitted st"
  "makefile_string (fold (\<lambda>p s. s\<lparr>dependency_set := insert p (dependency_set s)\<rparr>) ds st)
     = makefile_string st"
  by (induction ds arbitrary: st) auto

lemma mk_step_fields:
  "dependency_set (mk_step (ds, c) st) = set ds \<union> dependency_set st"
  "child_set (mk_step (ds, c) st) = insert c (child_set st)"
  "emitted (mk_step (ds, c) st) = emitted st @ [(ds, c)]"
  "makefile_string (mk_step (ds, c) st) = makefile_string st @ rule_string ds c"
  by (simp_all add: mk_step_def Let_def fold_insert_dependency_set fold_insert_other emit_rule_def)

lemma fold_mk_step_fields:
  "dependency_set (fold mk_step ps st) = (\<Union>p \<in> set ps. set (fst p)) \<union> dependency_set st"
  "child_set (fold mk_step ps st) = snd ` set ps \<union> child_set st"
  "emitted (fold mk_step ps st) = emitted st @ ps"
  "makefile_string (fold mk_step ps st)
     = makefile_string st @ concat (map (\<lambda>(ds, c). rule_string ds c) ps)"
proof (induction ps arbitrary: st)
  case Nil
  {
    case 1 show ?case by simp
  next
    case 2 show ?case by simp
  next
    case 3 show ?case by simp
  next
    case 4 show ?case by simp
  }
next
  case (Cons p ps)
  obtain ds c where p: "p = (ds, c)" by (cases p)
  {
    case 1 show ?case by (auto simp: Cons.IH(1) p mk_step_fields)
  next
    case 2 show ?case by (auto simp: Cons.IH(2) p mk_step_fields)
  next
    case 3 show ?case by (simp add: Cons.IH(3) p mk_step_fields)
  next
    case 4 show ?case by (simp add: Cons.IH(4) p mk_step_fields)
  }
qed

lemma fold_emit_fields:
  "dependency_set (fold (\<lambda>node s. emit_rule [] node s) ns st) = dependency_set st"
  "child_set (fold (\<lambda>node s. emit_rule [] node s) ns st) = child_set st"
  "emitted (fold (\<lambda>node s. emit_rule [] node s) ns st) = emitted st @ map (\<lambda>n. ([], n)) ns"
  "makefile_string (fold (\<lambda>node s. emit_rule [] node s) ns st)
     = makefile_string st @ concat (map (\<lambda>n. rule_string [] n) ns)"
  by (induction ns arbitrary: st) (simp_all add: emit_rule_def)

lemma mk_loops_fields:
  "dependency_set (mk_loops enum ps) = seen_dependencies ps"
  "child_set (mk_loops enum ps) = seen_children ps"
  "emitted (mk_loops enum ps)
     = ps @ map (\<lambda>n. ([], n)) (enum (seen_dependencies ps - seen_children ps))"
  "makefile_string (mk_loops enum ps)
     = concat (map (\<lambda>(ds, c). rule_string ds c) ps)
       @ concat (map (\<lambda>n. rule_string [] n) (enum (seen_dependencies ps - seen_children ps)))"
  by (simp_all add: mk_loops_def Let_def fold_emit_fields fold_mk_step_fields mk_init_def
      seen_dependencies_def seen_children_def)

lemma finite_seen: "finite (seen_dependencies ps)" "finite (seen_children ps)"
  by (simp_all add: seen_dependencies_def seen_children_def)

lemma first_seen_set: "set (first_seen xs) = set xs"
  by (induction xs) auto

lemma first_seen_distinct: "distinct (first_seen xs)"
  by (induction xs) (auto simp: first_seen_set)

lemma valid_enum_sorted: "valid_enum sorted_list_of_set"
  by (simp add: valid_enum_def)

lemma valid_enumD:
  assumes "valid_enum enum" and "finite S"
  shows "set (enum S) = S" and "distinct (enum S)"
  using assms by (simp_all add: valid_enum_def)

lemma unlines_append: "unlines (xs @ ys) = unlines xs @ unlines ys"
  by (simp add: unlines_def)

lemma unlines_concat: "unlines (concat xss) = concat (map unlines xss)"
  by (induction xss) (simp_all add: unlines_append, simp add: unlines_def)

lemma rule_string_lines: "rule_string ds n = unlines (script_rule (ds, n))"
  by (simp add: rule_string_def script_rule_def unlines_def nohup_out_def marker_def
      cong: map_cong)

lemma makefile_script:
  "makefile enum ps =
     script_text (enum (seen_dependencies ps \<union> seen_children ps))
       (ps @ map (Pair []) (enum (seen_dependencies ps - seen_children ps)))"
proof -
  have 1: "concat (map (\<lambda>(ds, c). rule_string ds c) rs) = unlines (concat (map script_rule rs))"
    for rs
    by (simp add: unlines_concat comp_def rule_string_lines case_prod_unfold)
  have 2: "concat (map (\<lambda>n. rule_string [] n) ns)
             = unlines (concat (map script_rule (map (Pair []) ns)))" for ns
    by (simp add: unlines_concat comp_def rule_string_lines)
  have 3: "map nohup_out xs = map marker xs" for xs
    by (simp add: nohup_out_def marker_def)
  show ?thesis
    unfolding makefile_def Let_def mk_loops_fields all_prerequisites_def 1 2 3 script_text_def
    by (simp add: unlines_append, simp add: unlines_def)
qed

lemma split_line: "sep \<notin> set l \<Longrightarrow> split sep (l @ sep # s) = l # split sep s"
  by (induction l) (auto split: list.splits)

lemma split_unlines: "\<forall>l \<in> set ls. NL \<notin> set l \<Longrightarrow> split NL (unlines ls) = ls @ [[]]"
  by (induction ls) (simp_all add: unlines_def split_line)

lemma join_no_sep:
  "\<forall>x \<in> set xs. c \<notin> set x \<Longrightarrow> c \<notin> set sep \<Longrightarrow> c \<notin> set (join sep xs)"
  by (induction sep xs rule: join.induct) auto

lemma newline_run:
  "find_dependencies fs_newline ''/r'' True
     = Some ([([], ''/r''), ([''/r''], ''/r/'' @ newline_name)], None)"
  by code_simp

text \<open>
  C10 as the specification states it fails for a node whose name has a newline in it,
  and \<^verbatim>\<open>find_dependencies\<close> yields such nodes: the name is copied into the rule as it
  is, so the rule of \<^verbatim>\<open>/r/a<newline><tab>touch pwned #\<close> has seven lines that begin with
  a tab, not four.
\<close>

theorem rule_string_newline_counterexample:
  "find_dependencies fs_newline ''/r'' True
     = Some ([([], ''/r''), ([''/r''], ''/r/'' @ newline_name)], None)
   \<and> tab_indented (split NL (rule_string [''/r''] (''/r/'' @ newline_name)))
     = [TAB # ''touch pwned #/_/nohup.out: /r/_/nohup.out'',
        TAB # ''date'',
        TAB # ''mkdir /r/a'',
        TAB # ''touch pwned #/_'',
        TAB # ''cd /r/a'',
        TAB # ''touch pwned #/_'',
        TAB # ''nohup ../__/driver'']"
proof
  show "find_dependencies fs_newline ''/r'' True
     = Some ([([], ''/r''), ([''/r''], ''/r/'' @ newline_name)], None)"
    by (rule newline_run)
next
  show "tab_indented (split NL (rule_string [''/r''] (''/r/'' @ newline_name)))
     = [TAB # ''touch pwned #/_/nohup.out: /r/_/nohup.out'',
        TAB # ''date'',
        TAB # ''mkdir /r/a'',
        TAB # ''touch pwned #/_'',
        TAB # ''cd /r/a'',
        TAB # ''touch pwned #/_'',
        TAB # ''nohup ../__/driver'']"
    by code_simp
qed

text \<open>
  C10, amended. When the path of the node and the paths of the dependencies have no
  newline in them and the path of the node does not begin with a tab, the lines of a
  \<^verbatim>\<open>rule_string\<close> (what \<^verbatim>\<open>split\<close> at the newlines gives) are: the line
  \<^verbatim>\<open>.ONESHELL:\<close>, the rule line with the target \<^verbatim>\<open>node/_/nohup.out\<close> and the markers
  of the dependencies, the four command lines \<^verbatim>\<open>date\<close>, \<^verbatim>\<open>mkdir node/_\<close>,
  \<^verbatim>\<open>cd node/_\<close>, \<^verbatim>\<open>nohup ../__/driver\<close>, each after one tab, and an empty line;
  nothing follows the last newline. The four command lines are the only lines that
  begin with a tab.
\<close>

theorem rule_string_layout:
  assumes "NL \<notin> set node" and "\<forall>d \<in> set dependencies. NL \<notin> set d"
    and "take 1 node \<noteq> [TAB]"
  shows "split NL (rule_string dependencies node) =
       [''.ONESHELL:'',
        node @ ''/_/nohup.out: '' @
          join '' '' (map (\<lambda>x. x @ ''/_/nohup.out'') dependencies),
        TAB # ''date'',
        TAB # ''mkdir '' @ node @ ''/_'',
        TAB # ''cd '' @ node @ ''/_'',
        TAB # ''nohup ../__/driver'',
        [],
        []]
   \<and> tab_indented (split NL (rule_string dependencies node)) =
       [TAB # ''date'',
        TAB # ''mkdir '' @ node @ ''/_'',
        TAB # ''cd '' @ node @ ''/_'',
        TAB # ''nohup ../__/driver'']"
proof -
  have j: "NL \<notin> set (join '' '' (map marker dependencies))"
    using assms(2) by (intro join_no_sep) (auto simp: marker_def)
  have "\<forall>l \<in> set (script_rule (dependencies, node)). NL \<notin> set l"
    using assms(1) j by (simp add: script_rule_def marker_def)
  then have s: "split NL (rule_string dependencies node)
      = script_rule (dependencies, node) @ [[]]"
    unfolding rule_string_lines by (rule split_unlines)
  have m: "map marker dependencies = map (\<lambda>x. x @ ''/_/nohup.out'') dependencies"
    by (simp add: marker_def)
  have t: "take 1 (node @ ''/_/nohup.out: '' @ r) \<noteq> [TAB]" for r
    using assms(3) by (cases node) simp_all
  show ?thesis
    unfolding s using t
    by (simp add: script_rule_def marker_def tab_indented_def m)
qed

theorem rule_string_layout_witness:
  "NL \<notin> set ''/r/b'' \<and> take 1 ''/r/b'' \<noteq> [TAB]
   \<and> split NL (rule_string [''/r/a''] ''/r/b'') =
       [''.ONESHELL:'',
        ''/r/b/_/nohup.out: /r/a/_/nohup.out'',
        TAB # ''date'',
        TAB # ''mkdir /r/b/_'',
        TAB # ''cd /r/b/_'',
        TAB # ''nohup ../__/driver'',
        [],
        []]"
  using rule_string_layout[of "''/r/b''" "[''/r/a'']"] by simp

text \<open>
  C2. Whatever order the sets are iterated in, the script that \<^verbatim>\<open>makefile\<close> returns
  is the text of an \<^verbatim>\<open>all:\<close> line and of a list of rules, the rules of the stream among
  them, in which every dependency of a rule is the node of some rule, every path the
  \<^verbatim>\<open>all:\<close> line lists is the node of some rule, and a dependency that was never a child
  of the stream has a rule with no dependencies.
\<close>

theorem makefile_no_dangling_prerequisites:
  assumes "valid_enum enum"
  shows "\<exists>alls rules.
           makefile enum ps = script_text alls rules
         \<and> set ps \<subseteq> set rules
         \<and> (\<forall>(ds, node) \<in> set rules. \<forall>d \<in> set ds. \<exists>ds'. (ds', d) \<in> set rules)
         \<and> (\<forall>d \<in> set alls. \<exists>ds'. (ds', d) \<in> set rules)
         \<and> (\<forall>d \<in> seen_dependencies ps - seen_children ps. ([], d) \<in> set rules)
         \<and> (\<forall>(ds, node) \<in> set rules. (ds, node) \<in> set ps \<or> ds = [])"
proof -
  let ?D = "seen_dependencies ps" and ?C = "seen_children ps"
  let ?rules = "ps @ map (Pair []) (enum (?D - ?C))" and ?alls = "enum (?D \<union> ?C)"
  have rules: "set ?rules = set ps \<union> Pair [] ` (?D - ?C)"
    using valid_enumD(1)[OF assms, of "?D - ?C"] by (simp add: finite_seen)
  have alls: "set ?alls = ?D \<union> ?C"
    using valid_enumD(1)[OF assms, of "?D \<union> ?C"] by (simp add: finite_seen)
  have target: "\<exists>ds'. (ds', d) \<in> set ?rules" if "d \<in> ?D \<union> ?C" for d
  proof (cases "d \<in> ?C")
    case True
    then obtain ds' where "(ds', d) \<in> set ps"
      by (auto simp: seen_children_def)
    then show ?thesis unfolding rules by blast
  next
    case False
    with that have "([], d) \<in> Pair [] ` (?D - ?C)" by blast
    then show ?thesis unfolding rules by blast
  qed
  have 1: "makefile enum ps = script_text ?alls ?rules" by (rule makefile_script)
  have 2: "set ps \<subseteq> set ?rules" by simp
  have 3: "\<forall>(ds, node) \<in> set ?rules. \<forall>d \<in> set ds. \<exists>ds'. (ds', d) \<in> set ?rules"
  proof (intro ballI, clarify)
    fix ds node d assume r: "(ds, node) \<in> set ?rules" and d: "d \<in> set ds"
    then have "(ds, node) \<in> set ps" unfolding rules by auto
    with d have "d \<in> ?D" by (force simp: seen_dependencies_def)
    then show "\<exists>ds'. (ds', d) \<in> set ?rules" using target[of d] by blast
  qed
  have 4: "\<forall>d \<in> set ?alls. \<exists>ds'. (ds', d) \<in> set ?rules"
    unfolding alls using target by blast
  have 5: "\<forall>d \<in> ?D - ?C. ([], d) \<in> set ?rules"
    unfolding rules by blast
  have 6: "\<forall>(ds, node) \<in> set ?rules. (ds, node) \<in> set ps \<or> ds = []"
    unfolding rules by blast
  from 1 2 3 4 5 6 show ?thesis by (intro exI conjI)
qed

theorem makefile_no_dangling_prerequisites_witness:
  "valid_enum sorted_list_of_set
   \<and> (\<exists>alls rules.
         makefile sorted_list_of_set [([''/r/a''], ''/r/b'')] = script_text alls rules
       \<and> ([''/r/a''], ''/r/b'') \<in> set rules \<and> ([], ''/r/a'') \<in> set rules)"
proof -
  let ?ps = "[([''/r/a''], ''/r/b'')]"
  have v: "valid_enum sorted_list_of_set" by (rule valid_enum_sorted)
  have m: "''/r/a'' \<in> seen_dependencies ?ps - seen_children ?ps"
    by (simp add: seen_dependencies_def seen_children_def)
  from makefile_no_dangling_prerequisites[OF v, of ?ps] obtain alls rules where
    t: "makefile sorted_list_of_set ?ps = script_text alls rules"
    and s: "set ?ps \<subseteq> set rules"
    and d: "\<forall>d \<in> seen_dependencies ?ps - seen_children ?ps. ([], d) \<in> set rules"
    by blast
  from s have "([''/r/a''], ''/r/b'') \<in> set rules" by simp
  moreover from d m have "([], ''/r/a'') \<in> set rules" by (rule bspec)
  ultimately show ?thesis using v t by (intro conjI exI)
qed

text \<open>
  C6 as the specification states it fails: the sets are Python sets, and an iteration
  order that lists \<^verbatim>\<open>/r/a\<close> before \<^verbatim>\<open>/r/b\<close> puts the rule of \<^verbatim>\<open>/r/a\<close> first
  although \<^verbatim>\<open>/r/b\<close> was seen first. The script is then not the text of the rules and
  of the \<^verbatim>\<open>all:\<close> line in insertion order.
\<close>

theorem makefile_insertion_order_counterexample:
  "valid_enum sorted_list_of_set
   \<and> makefile sorted_list_of_set [([''/r/b'', ''/r/a''], ''/r/c'')]
       = script_text [''/r/a'', ''/r/b'', ''/r/c'']
           [([''/r/b'', ''/r/a''], ''/r/c''), ([], ''/r/a''), ([], ''/r/b'')]
   \<and> makefile sorted_list_of_set [([''/r/b'', ''/r/a''], ''/r/c'')]
       \<noteq> script_text (union_in_insertion_order [([''/r/b'', ''/r/a''], ''/r/c'')])
           ([([''/r/b'', ''/r/a''], ''/r/c'')]
            @ map (Pair []) (trivial_in_insertion_order [([''/r/b'', ''/r/a''], ''/r/c'')]))"
proof (intro conjI)
  show "valid_enum sorted_list_of_set" by (rule valid_enum_sorted)
next
  show "makefile sorted_list_of_set [([''/r/b'', ''/r/a''], ''/r/c'')]
       = script_text [''/r/a'', ''/r/b'', ''/r/c'']
           [([''/r/b'', ''/r/a''], ''/r/c''), ([], ''/r/a''), ([], ''/r/b'')]"
    by code_simp
next
  show "makefile sorted_list_of_set [([''/r/b'', ''/r/a''], ''/r/c'')]
       \<noteq> script_text (union_in_insertion_order [([''/r/b'', ''/r/a''], ''/r/c'')])
           ([([''/r/b'', ''/r/a''], ''/r/c'')]
            @ map (Pair []) (trivial_in_insertion_order [([''/r/b'', ''/r/a''], ''/r/c'')]))"
    by code_simp
qed

text \<open>
  C6, amended. The script is the text of the \<^verbatim>\<open>all:\<close> line and of the rules: the rules
  of the stream come first, in stream order; the rules of the dependencies that were
  never a child follow, one for each, and the \<^verbatim>\<open>all:\<close> line lists every dependency and
  child once; in both the order is the iteration order of the set, a permutation of the
  insertion order.
\<close>

theorem makefile_order_amended:
  assumes "valid_enum enum"
  shows "\<exists>ts us.
           makefile enum ps = script_text us (ps @ map (Pair []) ts)
         \<and> mset ts = mset (trivial_in_insertion_order ps)
         \<and> mset us = mset (union_in_insertion_order ps)"
proof -
  let ?D = "seen_dependencies ps" and ?C = "seen_children ps"
  let ?ts = "enum (?D - ?C)" and ?us = "enum (?D \<union> ?C)"
  have 1: "makefile enum ps = script_text ?us (ps @ map (Pair []) ?ts)"
    by (rule makefile_script)
  have "set ?ts = set (trivial_in_insertion_order ps)"
    using valid_enumD(1)[OF assms, of "?D - ?C"]
    by (auto simp: trivial_in_insertion_order_def first_seen_set finite_seen seen_dependencies_def)
  moreover have "distinct ?ts"
    using valid_enumD(2)[OF assms, of "?D - ?C"] by (simp add: finite_seen)
  moreover have "distinct (trivial_in_insertion_order ps)"
    by (simp add: trivial_in_insertion_order_def first_seen_distinct)
  ultimately have 2: "mset ?ts = mset (trivial_in_insertion_order ps)"
    by (simp add: set_eq_iff_mset_eq_distinct)
  have "set ?us = set (union_in_insertion_order ps)"
    using valid_enumD(1)[OF assms, of "?D \<union> ?C"]
    by (auto simp: union_in_insertion_order_def first_seen_set finite_seen
        seen_dependencies_def seen_children_def)
  moreover have "distinct ?us"
    using valid_enumD(2)[OF assms, of "?D \<union> ?C"] by (simp add: finite_seen)
  moreover have "distinct (union_in_insertion_order ps)"
    by (simp add: union_in_insertion_order_def first_seen_distinct)
  ultimately have 4: "mset ?us = mset (union_in_insertion_order ps)"
    by (simp add: set_eq_iff_mset_eq_distinct)
  from 1 2 4 show ?thesis by (intro exI conjI)
qed

theorem makefile_order_amended_witness:
  "valid_enum sorted_list_of_set
   \<and> (\<exists>ts us.
         makefile sorted_list_of_set [([''/r/b'', ''/r/a''], ''/r/c'')]
           = script_text us ([([''/r/b'', ''/r/a''], ''/r/c'')] @ map (Pair []) ts)
       \<and> mset ts = mset (trivial_in_insertion_order [([''/r/b'', ''/r/a''], ''/r/c'')])
       \<and> mset us = mset (union_in_insertion_order [([''/r/b'', ''/r/a''], ''/r/c'')]))"
  using valid_enum_sorted makefile_order_amended[OF valid_enum_sorted]
  by (rule conjI)
section \<open>Properties of path resolution and of the classifier\<close>

lemma split_not_Nil [simp]: "split sep s \<noteq> []"
  by (induction s) (auto split: list.splits)

lemma split_append: "split sep (a @ sep # b) = split sep a @ split sep b"
  by (induction a) (auto split: list.splits)

lemma split_no_sep: "sep \<notin> set s \<Longrightarrow> split sep s = [s]"
  by (induction s) auto

lemma walk_not_dir:
  "\<not> (\<exists>s rd es. inode_at r cur = Some (Dir s rd es)) \<Longrightarrow> walk r f cur (c # cs) = Inl ENOTDIR"
  by (cases "inode_at r cur"; cases "the (inode_at r cur)") simp_all

lemma walk_dir:
  "inode_at r cur = Some (Dir s rd es) \<Longrightarrow>
   walk r f cur (c # cs) =
     (if c = [] then walk r f cur cs
      else if \<not> s then Inl EACCES
      else if c = ''.'' then walk r f cur cs
      else if c = ''..'' then walk r f (butlast cur) cs
      else (case map_of es c of
              None \<Rightarrow> Inl ENOENT
            | Some (Symlink t) \<Rightarrow>
                if t = [] then Inl ENOENT
                else if f = 0 then Inl ELOOP
                else walk r (f - 1) (if is_abs t then [] else cur) (split CHR ''/'' t @ cs)
            | Some _ \<Rightarrow> walk r f (cur @ [c]) cs))"
  by simp

declare walk.simps(2) [simp del]

text \<open>The cases of one step of \<open>walk\<close> that succeeds.\<close>

lemma walk_Cons_cases:
  assumes "walk r f cur (c # cs) = Inr res"
  obtains
    (skip) s rd es where "inode_at r cur = Some (Dir s rd es)" "c = [] \<or> (s \<and> c = ''.'')"
      "walk r f cur cs = Inr res"
  | (up) s rd es where "inode_at r cur = Some (Dir s rd es)" "s" "c = ''..''"
      "walk r f (butlast cur) cs = Inr res"
  | (link) s rd es t where "inode_at r cur = Some (Dir s rd es)" "s" "c \<noteq> []" "c \<noteq> ''.''"
      "c \<noteq> ''..''" "map_of es c = Some (Symlink t)" "t \<noteq> []" "f \<noteq> 0"
      "walk r (f - 1) (if is_abs t then [] else cur) (split CHR ''/'' t @ cs) = Inr res"
  | (down) s rd es m where "inode_at r cur = Some (Dir s rd es)" "s" "c \<noteq> []" "c \<noteq> ''.''"
      "c \<noteq> ''..''" "map_of es c = Some m" "\<forall>t. m \<noteq> Symlink t"
      "walk r f (cur @ [c]) cs = Inr res"
proof (cases "\<exists>s rd es. inode_at r cur = Some (Dir s rd es)")
  case False
  from walk_not_dir[OF this] assms show ?thesis by simp
next
  case True
  then obtain s rd es where D: "inode_at r cur = Some (Dir s rd es)" by blast
  note w = assms[unfolded walk_dir[OF D]]
  show ?thesis
  proof (cases "c = [] \<or> (s \<and> c = ''.'')")
    case True
    with w D skip show ?thesis by (auto split: if_splits)
  next
    case False
    then have c: "c \<noteq> []" and dot: "s \<longrightarrow> c \<noteq> ''.''" by auto
    from w c have s: "s" by (auto split: if_splits)
    with dot have c1: "c \<noteq> ''.''" by simp
    show ?thesis
    proof (cases "c = ''..''")
      case True
      with w c s c1 D up show ?thesis by simp
    next
      case c2: False
      show ?thesis
      proof (cases "map_of es c")
        case None
        with w c s c1 c2 show ?thesis by simp
      next
        case (Some m)
        show ?thesis
        proof (cases m)
          case (File x)
          with w c s c1 c2 Some D down[of s rd es m] show ?thesis by simp
        next
          case (Dir s' rd' es')
          with w c s c1 c2 Some D down[of s rd es m] show ?thesis by simp
        next
          case (Symlink t)
          with w c s c1 c2 Some have "t \<noteq> []" "f \<noteq> 0"
            "walk r (f - 1) (if is_abs t then [] else cur) (split CHR ''/'' t @ cs) = Inr res"
            by (auto split: if_splits)
          with c s c1 c2 Some Symlink D link[of s rd es t] show ?thesis by simp
        qed
      qed
    qed
  qed
qed

lemma walk_append:
  "walk r f cur (cs1 @ cs2) =
     (case walk r f cur cs1 of Inl e \<Rightarrow> Inl e | Inr (f', cur') \<Rightarrow> walk r f' cur' cs2)"
proof (induction r f cur cs1 rule: walk.induct)
  case (1 r f cur)
  then show ?case by simp
next
  case (2 r f cur c cs)
  show ?case
  proof (cases "\<exists>s rd es. inode_at r cur = Some (Dir s rd es)")
    case False
    then show ?thesis by (simp add: walk_not_dir)
  next
    case True
    then obtain s rd es where D: "inode_at r cur = Some (Dir s rd es)" by blast
    show ?thesis
    proof (cases "map_of es c")
      case None
      with D 2(1,2,3) show ?thesis by (simp add: walk_dir)
    next
      case (Some m)
      with D 2 show ?thesis
        by (cases m) (simp_all add: walk_dir)
    qed
  qed
qed


text \<open>Rule induction over a walk that succeeds.\<close>

lemma walk_success_induct [consumes 1, case_names finish skip up link down]:
  assumes "walk r f cur cs = Inr res"
    and "\<And>f cur. P f cur [] (f, cur)"
    and "\<And>f cur c cs res s rd es.
           inode_at r cur = Some (Dir s rd es) \<Longrightarrow> c = [] \<or> (s \<and> c = ''.'') \<Longrightarrow>
           walk r f cur cs = Inr res \<Longrightarrow> P f cur cs res \<Longrightarrow> P f cur (c # cs) res"
    and "\<And>f cur c cs res s rd es.
           inode_at r cur = Some (Dir s rd es) \<Longrightarrow> s \<Longrightarrow> c = ''..'' \<Longrightarrow>
           walk r f (butlast cur) cs = Inr res \<Longrightarrow> P f (butlast cur) cs res \<Longrightarrow>
           P f cur (c # cs) res"
    and "\<And>f cur c cs res s rd es t.
           inode_at r cur = Some (Dir s rd es) \<Longrightarrow> s \<Longrightarrow> c \<noteq> [] \<Longrightarrow> c \<noteq> ''.'' \<Longrightarrow>
           c \<noteq> ''..'' \<Longrightarrow> map_of es c = Some (Symlink t) \<Longrightarrow> t \<noteq> [] \<Longrightarrow> f \<noteq> 0 \<Longrightarrow>
           walk r (f - 1) (if is_abs t then [] else cur) (split CHR ''/'' t @ cs) = Inr res \<Longrightarrow>
           P (f - 1) (if is_abs t then [] else cur) (split CHR ''/'' t @ cs) res \<Longrightarrow>
           P f cur (c # cs) res"
    and "\<And>f cur c cs res s rd es m.
           inode_at r cur = Some (Dir s rd es) \<Longrightarrow> s \<Longrightarrow> c \<noteq> [] \<Longrightarrow> c \<noteq> ''.'' \<Longrightarrow>
           c \<noteq> ''..'' \<Longrightarrow> map_of es c = Some m \<Longrightarrow> \<forall>t. m \<noteq> Symlink t \<Longrightarrow>
           walk r f (cur @ [c]) cs = Inr res \<Longrightarrow> P f (cur @ [c]) cs res \<Longrightarrow>
           P f cur (c # cs) res"
  shows "P f cur cs res"
proof -
  have "walk r' f cur cs = Inr res \<Longrightarrow> r' = r \<Longrightarrow> P f cur cs res" for r'
  proof (induction r' f cur cs rule: walk.induct)
    case (1 r' f cur)
    then show ?case using assms(2) by auto
  next
    case (2 r' f cur c cs)
    from "2.prems" have eq: "r' = r" and w: "walk r f cur (c # cs) = Inr res" by simp_all
    note IH = "2.IH"[unfolded eq]
    from w show ?case
    proof (cases rule: walk_Cons_cases)
      case (skip s rd es)
      from skip(2) have "P f cur cs res"
      proof
        assume "c = []"
        from IH(1)[OF skip(1) refl this skip(3) refl] show ?thesis .
      next
        assume a: "s \<and> c = ''.''"
        then have "c \<noteq> []" "\<not> \<not> s" "c = ''.''" by auto
        from IH(2)[OF skip(1) refl this skip(3) refl] show ?thesis .
      qed
      from assms(3)[OF skip(1) skip(2) skip(3) this] show ?thesis .
    next
      case (up s rd es)
      then have "c \<noteq> []" "\<not> \<not> s" "c \<noteq> ''.''" "c = ''..''" by auto
      from IH(3)[OF up(1) refl this up(4) refl] have "P f (butlast cur) cs res" .
      from assms(4)[OF up(1) up(2) up(3) up(4) this] show ?thesis .
    next
      case (link s rd es t)
      from link(2) have s: "\<not> \<not> s" by simp
      from IH(6)[OF link(1) refl link(3) s link(4) link(5) link(6) refl link(7) link(8)
          link(9) refl]
      have "P (f - 1) (if is_abs t then [] else cur) (split CHR ''/'' t @ cs) res" .
      from assms(5)[OF link(1-9) this] show ?thesis .
    next
      case (down s rd es m)
      from down(2) have s: "\<not> \<not> s" by simp
      have "P f (cur @ [c]) cs res"
      proof (cases m)
        case (File x)
        from IH(4)[OF down(1) refl down(3) s down(4) down(5) down(6) File down(8) refl]
        show ?thesis .
      next
        case (Dir s' rd' es')
        from IH(5)[OF down(1) refl down(3) s down(4) down(5) down(6) Dir down(8) refl]
        show ?thesis .
      next
        case (Symlink t)
        with down(7) show ?thesis by simp
      qed
      from assms(6)[OF down(1-8) this] show ?thesis .
    qed
  qed
  from this[OF assms(1) refl] show ?thesis .
qed

lemma inode_at_append:
  "inode_at r (xs @ ys) = (case inode_at r xs of None \<Rightarrow> None | Some n \<Rightarrow> inode_at n ys)"
  by (induction xs arbitrary: r) (auto split: inode.splits option.splits)


lemma inode_at_butlast:
  "inode_at r cur = Some n \<Longrightarrow> \<exists>s rd es. inode_at r (butlast cur) = Some (Dir s rd es) \<or> cur = []"
proof (cases cur rule: rev_cases)
  case Nil
  then show ?thesis by simp
next
  case (snoc xs x)
  assume "inode_at r cur = Some n"
  with snoc show ?thesis
    by (auto simp: inode_at_append split: option.splits inode.splits)
qed

lemma walk_Cons_dir:
  "walk r f cur (c # cs) = Inr res \<Longrightarrow> \<exists>s rd es. inode_at r cur = Some (Dir s rd es)"
  by (erule walk_Cons_cases) blast+

lemma walk_fuel_le_aux: "walk r f cur cs = Inr res \<Longrightarrow> fst res \<le> f"
proof (induction f cur cs res rule: walk_success_induct)
  case (link f cur c cs res s rd es t)
  then show ?case by simp
qed simp_all

lemma walk_fuel_le: "walk r f cur cs = Inr (f', cur') \<Longrightarrow> f' \<le> f"
  using walk_fuel_le_aux[of r f cur cs "(f', cur')"] by simp

lemma walk_inode_aux:
  "walk r f cur cs = Inr res \<Longrightarrow> cs \<noteq> [] \<or> inode_at r cur \<noteq> None
   \<Longrightarrow> inode_at r (snd res) \<noteq> None"
proof (induction f cur cs res rule: walk_success_induct)
  case (finish f cur)
  then show ?case by simp
next
  case (skip f cur c cs res s rd es)
  then show ?case by simp
next
  case (up f cur c cs res s rd es)
  have "inode_at r (butlast cur) \<noteq> None"
    using inode_at_butlast[OF up(1)] up(1) by (cases "cur = []") auto
  with up show ?case by simp
next
  case (link f cur c cs res s rd es t)
  have "inode_at r (if is_abs t then [] else cur) \<noteq> None"
    using link(1) by simp
  with link show ?case by simp
next
  case (down f cur c cs res s rd es m)
  have "inode_at r (cur @ [c]) \<noteq> None"
    using down(1,6) by (simp add: inode_at_append)
  with down show ?case by simp
qed

lemma walk_inode:
  "walk r f cur cs = Inr (f', cur') \<Longrightarrow> cs \<noteq> [] \<or> inode_at r cur \<noteq> None
   \<Longrightarrow> inode_at r cur' \<noteq> None"
  using walk_inode_aux[of r f cur cs "(f', cur')"] by simp

lemma is_abs_append: "p \<noteq> [] \<Longrightarrow> is_abs (p @ q) = is_abs p"
  by (cases p) (auto simp: is_abs_def)

lemma resolve_child:
  "p \<noteq> [] \<Longrightarrow>
   resolve fs (p @ CHR ''/'' # x) =
     (case resolve fs p of
        Inl e \<Rightarrow> Inl e
      | Inr (f, cur) \<Rightarrow> walk (fs_root fs) f cur (split CHR ''/'' x))"
  by (simp add: resolve_def split_append walk_append start_dir_def is_abs_append)

lemma stat_child:
  assumes "p \<noteq> []" and "os_stat fs (p @ CHR ''/'' # x) = Inr n"
  shows "\<exists>s rd es. os_stat fs p = Inr (Dir s rd es)"
proof -
  from assms(2) obtain f cur where r: "resolve fs (p @ CHR ''/'' # x) = Inr (f, cur)"
    by (auto simp: os_stat_def split: sum.splits)
  then obtain f0 cur0 where r0: "resolve fs p = Inr (f0, cur0)"
    and w: "walk (fs_root fs) f0 cur0 (split CHR ''/'' x) = Inr (f, cur)"
    by (auto simp: resolve_child[OF assms(1)] split: sum.splits)
  obtain c cs where "split CHR ''/'' x = c # cs"
    by (cases "split CHR ''/'' x") auto
  with w walk_Cons_dir obtain s rd es where "inode_at (fs_root fs) cur0 = Some (Dir s rd es)"
    by metis
  with r0 show ?thesis by (simp add: os_stat_def)
qed

lemma stat_child_error:
  assumes "p \<noteq> []" and "os_stat fs p = Inl e"
  shows "\<exists>e'. os_stat fs (p @ CHR ''/'' # x) = Inl e'"
proof (cases "os_stat fs (p @ CHR ''/'' # x)")
  case (Inl a)
  then show ?thesis by blast
next
  case (Inr n)
  from stat_child[OF assms(1) Inr] assms(2) show ?thesis by auto
qed

lemma isdir_child: "p \<noteq> [] \<Longrightarrow> os_path_isdir fs (p @ CHR ''/'' # x) \<Longrightarrow> os_path_isdir fs p"
  by (auto simp: os_path_isdir_def split: sum.splits inode.splits dest: stat_child)

lemma realpath_not_empty: "os_path_realpath fs p \<noteq> []"
proof -
  have "path_string cs \<noteq> []" for cs
    by (cases cs) (simp_all add: path_string_def)
  then show ?thesis by (simp add: os_path_realpath_def normpath_def split: sum.splits)
qed

lemma ready_eligible:
  assumes "is_ready_to_run fs (Some p)" and "p \<noteq> []"
  shows "eligible fs p"
proof -
  from assms(1) have d: "os_path_isdir fs (p @ ''/__'')" and e: "\<not> os_path_exists fs (p @ ''/_'')"
    and x: "os_access_X_OK fs (p @ ''/__/driver'')"
    by (simp_all add: is_ready_to_run_def)
  from isdir_child[OF assms(2), of fs "''__''"] d have "os_path_isdir fs p" by simp
  moreover from e have "\<not> os_path_isdir fs (p @ ''/_'')"
    by (auto simp: os_path_exists_def os_path_isdir_def split: sum.splits)
  ultimately show ?thesis using d x by (simp add: eligible_def)
qed

text \<open>
  C1. The classifier differs from the eligibility invariant, and from its own
  docstring (\<^verbatim>\<open>True\<close> if the node ``has no \<^verbatim>\<open>_/\<close> dir'' and has an executable driver),
  where something other than a directory is at \<^verbatim>\<open>p/_\<close>: it tests
  \<^verbatim>\<open>os.path.exists(node + '/_')\<close>, not \<^verbatim>\<open>os.path.isdir\<close>. With a regular file
  \<^verbatim>\<open>/r/_\<close> the node \<^verbatim>\<open>/r\<close> is a directory, has the declaration subdirectory
  \<^verbatim>\<open>/r/__\<close> with an executable driver and has no results subdirectory, and
  \<^verbatim>\<open>is_ready_to_run('/r')\<close> is \<^verbatim>\<open>False\<close>.
\<close>

theorem is_ready_to_run_marker_file:
  "os_path_isdir fs_marker_file ''/r''
   \<and> os_path_isdir fs_marker_file ''/r/__''
   \<and> \<not> os_path_isdir fs_marker_file ''/r/_''
   \<and> os_access_X_OK fs_marker_file ''/r/__/driver''
   \<and> eligible fs_marker_file ''/r''
   \<and> os_path_exists fs_marker_file ''/r/_''
   \<and> \<not> is_ready_to_run fs_marker_file (Some ''/r'')"
proof (intro conjI)
  show "os_path_isdir fs_marker_file ''/r''" by code_simp
next
  show "os_path_isdir fs_marker_file ''/r/__''" by code_simp
next
  show "\<not> os_path_isdir fs_marker_file ''/r/_''" by code_simp
next
  show "os_access_X_OK fs_marker_file ''/r/__/driver''" by code_simp
next
  show "eligible fs_marker_file ''/r''" by code_simp
next
  show "os_path_exists fs_marker_file ''/r/_''" by code_simp
next
  show "\<not> is_ready_to_run fs_marker_file (Some ''/r'')" by code_simp
qed

text \<open>
  Where nothing but a directory can be at \<^verbatim>\<open>p/_\<close>, the classifier of a path that is not
  empty is the eligibility invariant.
\<close>

lemma is_ready_to_run_eligible:
  assumes "p \<noteq> []" and "os_path_exists fs (p @ ''/_'') \<longrightarrow> os_path_isdir fs (p @ ''/_'')"
  shows "is_ready_to_run fs (Some p) \<longleftrightarrow> eligible fs p"
proof
  assume "is_ready_to_run fs (Some p)"
  then show "eligible fs p" using assms(1) by (rule ready_eligible)
next
  assume "eligible fs p"
  with assms(2) show "is_ready_to_run fs (Some p)"
    by (auto simp: eligible_def is_ready_to_run_def)
qed

text \<open>
  C8 as the specification states it fails in its second half: not found is not the only
  error the classifier absorbs. When \<^verbatim>\<open>/r\<close> may not be searched, \<^verbatim>\<open>os.stat\<close> of
  \<^verbatim>\<open>/r/__\<close> fails with \<open>EACCES\<close> and the classifier returns \<^verbatim>\<open>False\<close>.
\<close>

theorem not_found_counterexample:
  "\<not> (\<forall>fs p e. os_stat fs (p @ ''/__'') = Inl e \<and> \<not> is_ready_to_run fs (Some p) \<longrightarrow> e = ENOENT)"
proof -
  have "os_stat fs_no_search (''/r'' @ ''/__'') = Inl EACCES" by code_simp
  moreover have "\<not> is_ready_to_run fs_no_search (Some ''/r'')" by code_simp
  ultimately show ?thesis by blast
qed

text \<open>
  C8, amended. For every path \<open>p\<close> that is not empty and does not resolve, whatever the
  error, \<^verbatim>\<open>is_ready_to_run(p)\<close> is false; and it is false whenever \<^verbatim>\<open>os.stat\<close> of
  \<^verbatim>\<open>p/__\<close> fails, whatever the error. The classifier raises nothing: its result is
  a truth value for every filesystem state and path.
\<close>

theorem not_found_not_ready:
  "(p \<noteq> [] \<and> os_stat fs p = Inl e \<longrightarrow> \<not> is_ready_to_run fs (Some p))
   \<and> (os_stat fs (p @ ''/__'') = Inl e \<longrightarrow> \<not> is_ready_to_run fs (Some p))"
  using stat_child_error[of p fs e "''__''"]
  by (auto simp: is_ready_to_run_def os_path_isdir_def)

theorem not_found_not_ready_witness:
  "''/r/x'' \<noteq> [] \<and> os_stat fs_plain ''/r/x'' = Inl ENOENT
   \<and> \<not> is_ready_to_run fs_plain (Some ''/r/x'')"
proof -
  have n: "''/r/x'' \<noteq> []" by simp
  have s: "os_stat fs_plain ''/r/x'' = Inl ENOENT" by code_simp
  from not_found_not_ready[of "''/r/x''" fs_plain ENOENT] n s
  have "\<not> is_ready_to_run fs_plain (Some ''/r/x'')" by blast
  with n s show ?thesis by simp
qed

section \<open>Properties of dependency discovery\<close>


lemma belongs_to_tree_True:
  "belongs_to_tree fs d b = Inr True \<Longrightarrow>
     os_path_isdir fs d \<and> os_path_isdir fs b \<and>
     prefix (os_path_realpath fs b @ ''/'') (os_path_realpath fs d @ ''/'')"
  by (auto simp: belongs_to_tree_def split: if_splits)

lemma filter_dependencies_sound:
  "filter_dependencies fs node xs = Inr ys \<Longrightarrow> y \<in> set ys \<Longrightarrow>
     Some y \<in> set xs \<and> is_ready_to_run fs (Some (os_path_realpath fs y)) \<and>
     belongs_to_tree fs y node = Inr True"
proof (induction xs arbitrary: ys)
  case Nil
  then show ?case by simp
next
  case (Cons x xs)
  show ?case
  proof (cases x)
    case None
    with Cons show ?thesis by auto
  next
    case (Some z)
    show ?thesis
    proof (cases "is_ready_to_run fs (Some (os_path_realpath fs z))")
      case False
      with Some Cons show ?thesis by auto
    next
      case True
      with Some Cons.prems(1) obtain b zs where
        b: "belongs_to_tree fs z node = Inr b" and
        zs: "filter_dependencies fs node xs = Inr zs" and
        ys: "ys = (if b then z # zs else zs)"
        by (auto split: sum.splits)
      show ?thesis
      proof (cases "y \<in> set zs")
        case True
        with Cons.IH[OF zs] show ?thesis by simp
      next
        case False
        with ys Cons.prems(2) have "b" "y = z" by (auto split: if_splits)
        with b True Some show ?thesis by simp
      qed
    qed
  qed
qed

lemma visit_out:
  assumes "visit fs node recursive (parent, child) = (out, r)" and "(deps, n) \<in> set out"
  shows "n = child \<and> out = [(deps, child)]
       \<and> is_ready_to_run fs (Some (os_path_realpath fs child))
       \<and> belongs_to_tree fs child node = Inr True
       \<and> (\<exists>l. dependency_links fs child = Inr l
              \<and> filter_dependencies fs node (parent # map Some l) = Inr deps)"
  using assms
  by (auto simp: visit_def Let_def split: sum.splits if_splits)

lemma visited_mono: "Q \<subseteq> Q' \<Longrightarrow> visited fs node recursive Q \<subseteq> visited fs node recursive Q'"
proof
  fix it assume "Q \<subseteq> Q'" "it \<in> visited fs node recursive Q"
  from this(2,1) show "it \<in> visited fs node recursive Q'"
    by (induction rule: visited.induct) (auto intro: visited.intros)
qed

lemma visited_closed:
  "Q \<subseteq> visited fs node recursive Q' \<Longrightarrow> visited fs node recursive Q \<subseteq> visited fs node recursive Q'"
proof
  fix it assume "Q \<subseteq> visited fs node recursive Q'" "it \<in> visited fs node recursive Q"
  from this(2,1) show "it \<in> visited fs node recursive Q'"
    by (induction rule: visited.induct) (auto intro: visited.intros)
qed

lemma visited_Cons:
  assumes "visit fs node recursive it = (out, Inr new)"
  shows "visited fs node recursive (set (it # rest))
       = insert it (visited fs node recursive (set (rest @ new)))"
proof (intro equalityI subsetI)
  fix x assume "x \<in> visited fs node recursive (set (it # rest))"
  then show "x \<in> insert it (visited fs node recursive (set (rest @ new)))"
  proof (induction rule: visited.induct)
    case (start x)
    then show ?case by (auto intro: visited.start)
  next
    case (step x out' new' x')
    show ?case
    proof (cases "x = it")
      case True
      with step assms have "x' \<in> set new" by simp
      then show ?thesis by (auto intro: visited.start)
    next
      case False
      with step show ?thesis by (auto intro: visited.step)
    qed
  qed
next
  fix x assume "x \<in> insert it (visited fs node recursive (set (rest @ new)))"
  moreover have "set (rest @ new) \<subseteq> visited fs node recursive (set (it # rest))"
    using assms by (auto intro: visited.start visited.step[OF visited.start, of it])
  ultimately show "x \<in> visited fs node recursive (set (it # rest))"
    using visited_closed[of "set (rest @ new)" fs node recursive "set (it # rest)"]
    by (auto intro: visited.start)
qed

lemma find_loop_subset:
  "find_loop fs node recursive queue acc = Some res \<Longrightarrow>
     set (fst res) \<subseteq> set acc \<union> (\<Union>it \<in> visited fs node recursive (set queue). yields fs node recursive it)"
proof (induction rule: find_loop.raw_induct[rotated 1, consumes 1])
  case (1 find_loop' fs node recursive queue acc res)
  show ?case
  proof (cases queue)
    case Nil
    with 1(2) show ?thesis by auto
  next
    case (Cons it rest)
    obtain out r where v: "visit fs node recursive it = (out, r)"
      by (cases "visit fs node recursive it")
    have own: "set out \<subseteq> yields fs node recursive it"
      by (simp add: yields_def v)
    have itv: "it \<in> visited fs node recursive (set queue)"
      by (simp add: Cons visited.start)
    show ?thesis
    proof (cases r)
      case (Inl e)
      with 1(2) Cons v have "res = (acc @ out, Some e)" by simp
      with own itv show ?thesis by auto
    next
      case (Inr new)
      with 1(2) Cons v have "find_loop' fs node recursive (rest @ new) (acc @ out) = Some res"
        by simp
      from 1(1)[OF this] have
        "set (fst res) \<subseteq> set (acc @ out) \<union>
           (\<Union>it \<in> visited fs node recursive (set (rest @ new)). yields fs node recursive it)" .
      moreover have "visited fs node recursive (set queue)
          = insert it (visited fs node recursive (set (rest @ new)))"
        using visited_Cons[of fs node recursive it out new rest] v Inr Cons by simp
      ultimately show ?thesis using own by auto
    qed
  qed
qed

lemma find_dependencies_yield:
  assumes "find_dependencies fs node recursive = Some (pairs, err)" and "(deps, n) \<in> set pairs"
  shows "\<exists>parent. (parent, n) \<in> visited fs node recursive {(None, node)}
           \<and> is_ready_to_run fs (Some (os_path_realpath fs n))
           \<and> belongs_to_tree fs n node = Inr True
           \<and> (\<exists>l. dependency_links fs n = Inr l
                  \<and> filter_dependencies fs node (parent # map Some l) = Inr deps)"
proof -
  from assms(1) have loop: "find_loop fs node recursive [(None, node)] [] = Some (pairs, err)"
    and "os_path_isdir fs node"
    using assms(2) by (auto simp: find_dependencies_def split: if_splits)
  from find_loop_subset[OF loop] assms(2)
  obtain it where it: "it \<in> visited fs node recursive {(None, node)}"
    and y: "(deps, n) \<in> yields fs node recursive it"
    by auto
  obtain parent child where pc: "it = (parent, child)" by (cases it)
  obtain out r where v: "visit fs node recursive (parent, child) = (out, r)"
    by (cases "visit fs node recursive (parent, child)")
  with y pc have "(deps, n) \<in> set out" by (simp add: yields_def)
  from visit_out[OF v this] it pc show ?thesis by auto
qed

text \<open>
  C3. In every pair that \<^verbatim>\<open>find_dependencies\<close> yields, also before an error, every
  dependency is a directory, the classifier accepts its canonical path, which is
  eligible as the specification defines it, and its canonical path followed by
  \<^verbatim>\<open>/\<close> starts with the canonical path of the root node followed by \<^verbatim>\<open>/\<close>. So
  a parent whose canonical path is outside the tree of the root node is in no
  dependency list.
\<close>

theorem dependencies_contained:
  assumes "find_dependencies fs node recursive = Some (pairs, err)"
    and "(deps, n) \<in> set pairs" and "d \<in> set deps"
  shows "os_path_isdir fs d
       \<and> is_ready_to_run fs (Some (os_path_realpath fs d))
       \<and> eligible fs (os_path_realpath fs d)
       \<and> prefix (os_path_realpath fs node @ ''/'') (os_path_realpath fs d @ ''/'')"
proof -
  from find_dependencies_yield[OF assms(1,2)] obtain parent l where
    "filter_dependencies fs node (parent # map Some l) = Inr deps" by blast
  from filter_dependencies_sound[OF this assms(3)]
  have r: "is_ready_to_run fs (Some (os_path_realpath fs d))"
    and b: "belongs_to_tree fs d node = Inr True" by simp_all
  from ready_eligible[OF r realpath_not_empty] r belongs_to_tree_True[OF b]
  show ?thesis by simp
qed

lemma fs_dep_run:
  "find_dependencies fs_dep ''/r'' True = Some ([([], ''/r/a''), ([''/r/a''], ''/r/b'')], None)"
  by code_simp

theorem dependencies_contained_witness:
  "find_dependencies fs_dep ''/r'' True = Some ([([], ''/r/a''), ([''/r/a''], ''/r/b'')], None)
   \<and> os_path_isdir fs_dep ''/r/a''
   \<and> is_ready_to_run fs_dep (Some (os_path_realpath fs_dep ''/r/a''))
   \<and> eligible fs_dep (os_path_realpath fs_dep ''/r/a'')
   \<and> prefix (os_path_realpath fs_dep ''/r'' @ ''/'') (os_path_realpath fs_dep ''/r/a'' @ ''/'')"
  using fs_dep_run dependencies_contained[OF fs_dep_run, of "[''/r/a'']" "''/r/b''" "''/r/a''"]
  by simp


section \<open>Properties of the execution bridge and of the paths in the script\<close>

lemma fs_plain_run:
  "find_dependencies fs_plain (os_path_realpath fs_plain ''/r'') False = Some ([([], ''/r'')], None)"
  by code_simp


lemma visit_new:
  assumes "visit fs node recursive (parent, child) = (out, Inr new)" and "it' \<in> set new"
  shows "\<exists>xs x. os_listdir fs child = Inr xs \<and> x \<in> set xs
           \<and> it' = (Some child, os_path_join child x)
           \<and> os_path_isdir fs (os_path_join child x)"
  using assms
  by (auto simp: visit_def Let_def subdirectories_def split: sum.splits if_splits)





section \<open>Termination of the traversal\<close>

lemma height_entry: "(c, m) \<in> set es \<Longrightarrow> height m < height (Dir s rd es)"
proof -
  assume "(c, m) \<in> set es"
  then have "height m \<in> set (0 # map (\<lambda>e. height (snd e)) es)" by force
  then have "height m \<le> Max (set (0 # map (\<lambda>e. height (snd e)) es))"
    by (intro Max_ge) auto
  then show ?thesis by simp
qed

lemma inode_at_height: "inode_at r cur = Some n \<Longrightarrow> length cur + height n \<le> height r"
proof (induction cur arbitrary: r)
  case Nil
  then show ?case by simp
next
  case (Cons c cs)
  then obtain s rd es m where r: "r = Dir s rd es" and m: "map_of es c = Some m"
    and n: "inode_at m cs = Some n"
    by (auto split: inode.splits option.splits)
  from Cons.IH[OF n] height_entry[OF map_of_SomeD[OF m], of s rd] r show ?case by simp
qed

lemma inode_at_names_ok: "names_ok r \<Longrightarrow> inode_at r cur = Some n \<Longrightarrow> names_ok n"
proof (induction cur arbitrary: r)
  case Nil
  then show ?case by simp
next
  case (Cons c cs)
  then obtain s rd es m where r: "r = Dir s rd es" and m: "map_of es c = Some m"
    and n: "inode_at m cs = Some n"
    by (auto split: inode.splits option.splits)
  from Cons.prems(1) r map_of_SomeD[OF m] have "names_ok m"
    by (auto simp: list_all_iff)
  from Cons.IH[OF this n] show ?case .
qed

lemma dir_names_plain:
  assumes "names_ok r" and "inode_at r cur = Some (Dir s rd es)" and "x \<in> set (map fst es)"
  shows "plain x \<and> CHR ''/'' \<notin> set x"
  using inode_at_names_ok[OF assms(1,2)] assms(3) by (auto simp: list_all_iff)

lemma isdir_resolve:
  "os_path_isdir fs p \<Longrightarrow>
     \<exists>f cur s rd es. resolve fs p = Inr (f, cur) \<and> inode_at (fs_root fs) cur = Some (Dir s rd es)"
  by (auto simp: os_path_isdir_def os_stat_def split: sum.splits option.splits inode.splits)

lemma isdir_iff:
  "os_path_isdir fs p \<longleftrightarrow>
     (\<exists>f cur s rd es. resolve fs p = Inr (f, cur) \<and> inode_at (fs_root fs) cur = Some (Dir s rd es))"
  by (auto simp: os_path_isdir_def os_stat_def split: sum.splits option.splits inode.splits)

lemma is_abs_snoc: "is_abs (c0 @ CHR ''/'' # x) = is_abs (c0 @ ''/'')"
  by (cases c0) (auto simp: is_abs_def)

lemma resolve_join:
  assumes d: "resolve fs child = Inr (f, cur)"
    and x: "plain x" "CHR ''/'' \<notin> set x"
  shows "resolve fs (os_path_join child x) = walk (fs_root fs) f cur [x]"
proof -
  from d have ne: "child \<noteq> []" by (auto simp: resolve_def split: if_splits)
  from x have nabs: "\<not> is_abs x" by (cases x) (auto simp: is_abs_def)
  from x have sx: "split CHR ''/'' x = [x]" by (simp add: split_no_sep)
  show ?thesis
  proof (cases "last child = CHR ''/''")
    case False
    with ne nabs have "os_path_join child x = child @ CHR ''/'' # x"
      by (simp add: os_path_join_def)
    with resolve_child[OF ne, of fs x] d sx show ?thesis by simp
  next
    case True
    with ne obtain c0 where c0: "child = c0 @ ''/''"
      by (metis append_butlast_last_id)
    with nabs have j: "os_path_join child x = c0 @ CHR ''/'' # x"
      by (simp add: os_path_join_def)
    let ?r = "fs_root fs" and ?st = "start_dir fs child"
    have st: "start_dir fs (c0 @ CHR ''/'' # x) = ?st"
      by (simp add: start_dir_def c0 is_abs_snoc[of c0 x])
    from d ne have w: "walk ?r MAXSYMLINKS ?st (split CHR ''/'' c0 @ [[]]) = Inr (f, cur)"
      by (simp add: resolve_def c0 split_append)
    then obtain f0 cur0 where w0: "walk ?r MAXSYMLINKS ?st (split CHR ''/'' c0) = Inr (f0, cur0)"
      and w1: "walk ?r f0 cur0 [[]] = Inr (f, cur)"
      by (auto simp: walk_append split: sum.splits)
    from walk_Cons_dir[OF w1] obtain s rd es where "inode_at ?r cur0 = Some (Dir s rd es)"
      by blast
    with w1 have "f0 = f" "cur0 = cur" by (simp_all add: walk_dir)
    with w0 have "walk ?r MAXSYMLINKS ?st (split CHR ''/'' c0 @ [x]) = walk ?r f cur [x]"
      by (simp add: walk_append)
    then show ?thesis
      by (simp add: j resolve_def st split_append sx)
  qed
qed

lemma walk_single:
  assumes D: "inode_at r cur = Some (Dir s rd es)" and x: "plain x"
    and w: "walk r f cur [x] = Inr (f', cur')"
    and D': "inode_at r cur' = Some (Dir s' rd' es')"
  shows "(f' = f \<and> cur' = cur @ [x]) \<or> f' < f"
proof -
  from x have px: "x \<noteq> []" "x \<noteq> ''.''" "x \<noteq> ''..''" by (auto simp: plain_def)
  from w show ?thesis
  proof (cases rule: walk_Cons_cases)
    case (skip s rd es)
    with px show ?thesis by auto
  next
    case (up s rd es)
    with px show ?thesis by auto
  next
    case (link s rd es t)
    from walk_fuel_le[OF link(9)] link(8) have "f' < f" by arith
    then show ?thesis ..
  next
    case (down s rd es m)
    then show ?thesis by simp
  qed
qed

lemma msr_decreases:
  assumes v: "valid_fs fs" and d: "os_path_isdir fs child"
    and l: "os_listdir fs child = Inr xs" and x: "x \<in> set xs"
    and dx: "os_path_isdir fs (os_path_join child x)"
  shows "msr fs (os_path_join child x) < msr fs child"
proof -
  let ?r = "fs_root fs" and ?H = "height (fs_root fs)"
  from isdir_resolve[OF d] obtain f cur s rd es where
    r: "resolve fs child = Inr (f, cur)" and D: "inode_at ?r cur = Some (Dir s rd es)"
    by blast
  from l r D have xs: "xs = listing_order fs (map fst es)"
    by (auto simp: os_listdir_def os_stat_def split: if_splits)
  from v have "set (listing_order fs (map fst es)) = set (map fst es)"
    unfolding valid_fs_def by (metis set_mset_mset)
  with x xs have "x \<in> set (map fst es)" by simp
  from dir_names_plain[OF _ D this] v have px: "plain x" "CHR ''/'' \<notin> set x"
    by (simp_all add: valid_fs_def)
  from isdir_resolve[OF dx] obtain f' cur' s' rd' es' where
    r': "resolve fs (os_path_join child x) = Inr (f', cur')"
    and D': "inode_at ?r cur' = Some (Dir s' rd' es')"
    by blast
  from r' resolve_join[OF r px] have w: "walk ?r f cur [x] = Inr (f', cur')" by simp
  from inode_at_height[OF D] have h: "length cur < ?H" by simp
  from inode_at_height[OF D'] have h': "length cur' < ?H" by simp
  have m: "msr fs child = f * Suc ?H + (?H - length cur)"
    and m': "msr fs (os_path_join child x) = f' * Suc ?H + (?H - length cur')"
    by (simp_all add: msr_def r r')
  from walk_single[OF D px(1) w D'] show ?thesis
  proof
    assume "f' = f \<and> cur' = cur @ [x]"
    with h h' show ?thesis unfolding m m' by simp
  next
    assume "f' < f"
    then have "Suc f' \<le> f" by simp
    then have "Suc f' * Suc ?H \<le> f * Suc ?H" by (rule mult_le_mono1)
    moreover have "f' * Suc ?H + (?H - length cur') < Suc f' * Suc ?H" by simp
    ultimately show ?thesis unfolding m m' by linarith
  qed
qed

lemma find_loop_terminates:
  assumes v: "valid_fs fs"
  shows "\<forall>it \<in> set queue. os_path_isdir fs (snd it) \<Longrightarrow>
         \<exists>res. find_loop fs node recursive queue acc = Some res"
proof -
  let ?m = "\<lambda>it :: item. msr fs (snd it)"
  have "M = mset (map ?m queue) \<Longrightarrow> \<forall>it \<in> set queue. os_path_isdir fs (snd it) \<Longrightarrow>
        \<exists>res. find_loop fs node recursive queue acc = Some res" for M queue acc
  proof (induction M arbitrary: queue acc rule: wf_induct_rule[OF wf_less_multiset])
    case (1 M)
    show ?case
    proof (cases queue)
      case Nil
      then show ?thesis by (subst find_loop.simps) simp
    next
      case (Cons it rest)
      obtain parent child where it: "it = (parent, child)" by (cases it)
      obtain out r where vis: "visit fs node recursive (parent, child) = (out, r)"
        by (cases "visit fs node recursive (parent, child)")
      show ?thesis
      proof (cases r)
        case (Inl e)
        with Cons it vis show ?thesis by (subst find_loop.simps) simp
      next
        case (Inr new)
        from "1.prems"(2) Cons it have dchild: "os_path_isdir fs child" by simp
        have new: "os_path_isdir fs (snd it') \<and> ?m it' < ?m it" if "it' \<in> set new" for it'
        proof -
          from visit_new[OF vis[unfolded Inr] that] obtain xs x where
            "os_listdir fs child = Inr xs" "x \<in> set xs"
            "it' = (Some child, os_path_join child x)"
            "os_path_isdir fs (os_path_join child x)"
            by blast
          with msr_decreases[OF v dchild this(1,2,4)] it show ?thesis by simp
        qed
        have dirs: "\<forall>it' \<in> set (rest @ new). os_path_isdir fs (snd it')"
          using "1.prems"(2) Cons new by auto
        have "multp (<) (mset (map ?m rest) + mset (map ?m new)) (mset (map ?m rest) + {#?m it#})"
          by (rule one_step_implies_multp) (use new in auto)
        then have less: "mset (map ?m (rest @ new)) < M"
          by (simp add: "1.prems"(1) Cons less_multiset_def add.commute)
        from "1.IH"[of "mset (map ?m (rest @ new))" "rest @ new" "acc @ out"] less dirs
        obtain res where "find_loop fs node recursive (rest @ new) (acc @ out) = Some res"
          by auto
        with Cons it vis Inr show ?thesis by (subst find_loop.simps) simp
      qed
    qed
  qed
  then show "\<forall>it \<in> set queue. os_path_isdir fs (snd it) \<Longrightarrow>
         \<exists>res. find_loop fs node recursive queue acc = Some res"
    by blast
qed

lemma find_dependencies_returns:
  assumes "valid_fs fs"
  shows "\<exists>pairs err. find_dependencies fs node recursive = Some (pairs, err)"
proof (cases "os_path_isdir fs node")
  case True
  with find_loop_terminates[OF assms, of "[(None, node)]" node recursive "[]"]
  show ?thesis by (auto simp: find_dependencies_def)
next
  case False
  then show ?thesis by (simp add: find_dependencies_def)
qed












lemma valid_fs_of: "names_ok r \<Longrightarrow> valid_fs (fs_of r)"
  by (simp add: valid_fs_def fs_of_def)









lemma dep_valid: "valid_fs fs_dep"
  unfolding fs_dep_def by (rule valid_fs_of) code_simp

lemma plain_valid: "valid_fs fs_plain"
  unfolding fs_plain_def by (rule valid_fs_of) code_simp



section \<open>Properties of the execution bridge\<close>

lemma fs_byte_run:
  "find_dependencies fs_byte (os_path_realpath fs_byte [CHR ''/'', CHR 0xFF]) False
     = Some ([([], [CHR ''/'', CHR 0xFF])], None)"
  by code_simp

text \<open>
  C5 as the specification states it fails: \<^verbatim>\<open>run_make\<close> drops what \<^verbatim>\<open>p.wait()\<close>
  returns. For the node \<^verbatim>\<open>/r\<close> and a \<^verbatim>\<open>make\<close> that exits with status 2, \<^verbatim>\<open>run\<close> waits
  for it and returns \<^verbatim>\<open>None\<close>, and the process exits with status 0.
\<close>

theorem exit_status_counterexample:
  "run sorted_list_of_set (make_exits 2) fs_plain args_plain
     = Some ([Popen [''make'', ''-f'', ''-''],
              Write (makefile sorted_list_of_set [([], ''/r'')]), Close, Wait 2], Inr ())
   \<and> main sorted_list_of_set (make_exits 2) fs_plain args_plain = Some 0
   \<and> \<not> (\<forall>enum ex fs a pairs.
         find_dependencies fs (os_path_realpath fs (args_node a)) (args_recursive a)
           = Some (pairs, None)
         \<longrightarrow> main enum ex fs a = Some (returncode ex (makefile enum pairs)))"
proof -
  have d: "find_dependencies fs_plain (os_path_realpath fs_plain (args_node args_plain))
          (args_recursive args_plain) = Some ([([], ''/r'')], None)"
    using fs_plain_run by (simp add: args_plain_def)
  have v: "valid_utf8 (makefile sorted_list_of_set [([], ''/r'')])" by code_simp
  have r: "run sorted_list_of_set (make_exits 2) fs_plain args_plain
     = Some ([Popen [''make'', ''-f'', ''-''],
              Write (makefile sorted_list_of_set [([], ''/r'')]), Close, Wait 2], Inr ())"
    using v by (simp add: run_def d run_make_def encode_def make_exits_def)
  then have m: "main sorted_list_of_set (make_exits 2) fs_plain args_plain = Some 0"
    by (simp add: main_def)
  have "\<not> (\<forall>enum ex fs a pairs.
         find_dependencies fs (os_path_realpath fs (args_node a)) (args_recursive a)
           = Some (pairs, None)
         \<longrightarrow> main enum ex fs a = Some (returncode ex (makefile enum pairs)))"
  proof
    assume a: "\<forall>enum ex fs a pairs.
         find_dependencies fs (os_path_realpath fs (args_node a)) (args_recursive a)
           = Some (pairs, None)
         \<longrightarrow> main enum ex fs a = Some (returncode ex (makefile enum pairs))"
    from a[rule_format, OF d, of sorted_list_of_set "make_exits 2"] m
    show False by (simp add: make_exits_def)
  qed
  with r m show ?thesis by simp
qed

text \<open>
  C5, amended. On every filesystem state \<^verbatim>\<open>main\<close> ends. The process exits with
  status 0 exactly when nothing raises: discovery, starting \<^verbatim>\<open>make\<close>, encoding the
  script, writing it and closing the pipe; otherwise it exits with status 1. When it
  exits with status 0, \<^verbatim>\<open>run\<close> has started \<^verbatim>\<open>make -f -\<close>, written the script of
  \<^verbatim>\<open>makefile\<close> to it, closed the pipe and waited for \<^verbatim>\<open>make\<close> to exit, in this order.
  When discovery raises, \<^verbatim>\<open>make\<close> is not started. The exit status of the process
  does not depend on the exit status of \<^verbatim>\<open>make\<close>.
\<close>

theorem exit_status_discarded:
  assumes "valid_fs fs"
  shows "\<exists>pairs err.
      find_dependencies fs (os_path_realpath fs (args_node a)) (args_recursive a)
        = Some (pairs, err)
    \<and> main enum ex fs a =
        Some (if err = None \<and> popen_error ex [''make'', ''-f'', ''-''] = None
                 \<and> valid_utf8 (makefile enum pairs)
                 \<and> write_error ex (makefile enum pairs) = None
                 \<and> close_error ex (makefile enum pairs) = None
              then 0 else 1)
    \<and> (main enum ex fs a = Some 0 \<longrightarrow>
          run enum ex fs a
            = Some ([Popen [''make'', ''-f'', ''-''], Write (makefile enum pairs), Close,
                     Wait (returncode ex (makefile enum pairs))], Inr ()))
    \<and> (err \<noteq> None \<longrightarrow> run enum ex fs a = Some ([], Inl (the err)))
    \<and> (\<forall>status. main enum (ex\<lparr>returncode := status\<rparr>) fs a = main enum ex fs a)"
proof -
  from find_dependencies_returns[OF assms] obtain pairs err where
    d: "find_dependencies fs (os_path_realpath fs (args_node a)) (args_recursive a)
          = Some (pairs, err)"
    by blast
  show ?thesis
  proof (intro exI conjI)
    show "find_dependencies fs (os_path_realpath fs (args_node a)) (args_recursive a)
          = Some (pairs, err)"
      by (rule d)
  next
    show "main enum ex fs a =
        Some (if err = None \<and> popen_error ex [''make'', ''-f'', ''-''] = None
                 \<and> valid_utf8 (makefile enum pairs)
                 \<and> write_error ex (makefile enum pairs) = None
                 \<and> close_error ex (makefile enum pairs) = None
              then 0 else 1)"
      by (cases err) (auto simp: main_def run_def d run_make_def encode_def Let_def split: option.splits)
  next
    show "main enum ex fs a = Some 0 \<longrightarrow>
          run enum ex fs a
            = Some ([Popen [''make'', ''-f'', ''-''], Write (makefile enum pairs), Close,
                     Wait (returncode ex (makefile enum pairs))], Inr ())"
      by (cases err)
        (auto simp: main_def run_def d run_make_def encode_def Let_def split: option.splits if_splits)
  next
    show "err \<noteq> None \<longrightarrow> run enum ex fs a = Some ([], Inl (the err))"
      by (cases err) (auto simp: run_def d)
  next
    show "\<forall>status. main enum (ex\<lparr>returncode := status\<rparr>) fs a = main enum ex fs a"
      by (cases err) (auto simp: main_def run_def d run_make_def encode_def Let_def split: option.splits)
  qed
qed

theorem exit_status_discarded_witness:
  "valid_fs fs_plain
   \<and> main sorted_list_of_set (make_exits 2) fs_plain args_plain = Some 0
   \<and> main sorted_list_of_set (make_exits 0) fs_byte args_byte = Some 1
   \<and> run sorted_list_of_set (make_exits 0) fs_byte args_byte
       = Some ([Popen [''make'', ''-f'', ''-'']], Inl UnicodeEncodeError)"
proof -
  have d: "find_dependencies fs_plain (os_path_realpath fs_plain (args_node args_plain))
          (args_recursive args_plain) = Some ([([], ''/r'')], None)"
    using fs_plain_run by (simp add: args_plain_def)
  have v: "valid_utf8 (makefile sorted_list_of_set [([], ''/r'')])" by code_simp
  from exit_status_discarded[OF plain_valid, of args_plain sorted_list_of_set "make_exits 2"]
  have m: "main sorted_list_of_set (make_exits 2) fs_plain args_plain = Some 0"
    using v by (simp add: d make_exits_def)
  have b: "find_dependencies fs_byte (os_path_realpath fs_byte (args_node args_byte))
          (args_recursive args_byte) = Some ([([], [CHR ''/'', CHR 0xFF])], None)"
    using fs_byte_run by (simp add: args_byte_def)
  have nv: "\<not> valid_utf8 (makefile sorted_list_of_set [([], [CHR ''/'', CHR 0xFF])])"
    by code_simp
  have r: "run sorted_list_of_set (make_exits 0) fs_byte args_byte
       = Some ([Popen [''make'', ''-f'', ''-'']], Inl UnicodeEncodeError)"
    using nv by (simp add: run_def b run_make_def encode_def make_exits_def)
  then have "main sorted_list_of_set (make_exits 0) fs_byte args_byte = Some 1"
    by (simp add: main_def)
  with plain_valid m r show ?thesis by simp
qed

section \<open>Discovery does not depend on the listing order\<close>

lemma same_tree_sym: "same_tree fs fs' \<Longrightarrow> same_tree fs' fs"
  by (simp add: same_tree_def)

lemma same_tree_stat:
  assumes "same_tree fs fs'"
  shows "os_stat fs' = os_stat fs" "os_lstat fs' = os_lstat fs"
    "os_path_realpath fs' = os_path_realpath fs"
proof -
  from assms have r: "fs_root fs' = fs_root fs" and c: "fs_cwd fs' = fs_cwd fs"
    by (simp_all add: same_tree_def)
  have s: "start_dir fs' = start_dir fs" by (simp add: fun_eq_iff start_dir_def c)
  have res: "resolve fs' = resolve fs" by (simp add: fun_eq_iff resolve_def r s)
  show st: "os_stat fs' = os_stat fs"
    by (simp add: fun_eq_iff os_stat_def res r cong: sum.case_cong prod.case_cong)
  show "os_lstat fs' = os_lstat fs"
    by (simp add: fun_eq_iff os_lstat_def r s st Let_def
        cong: sum.case_cong prod.case_cong option.case_cong inode.case_cong if_cong)
  show "os_path_realpath fs' = os_path_realpath fs"
    by (simp add: fun_eq_iff os_path_realpath_def r s)
qed

lemma same_tree_tests:
  assumes "same_tree fs fs'"
  shows "os_path_isdir fs' = os_path_isdir fs" "os_path_exists fs' = os_path_exists fs"
    "os_path_islink fs' = os_path_islink fs" "os_access_X_OK fs' = os_access_X_OK fs"
  by (simp_all add: fun_eq_iff os_path_isdir_def os_path_exists_def os_path_islink_def
      os_access_X_OK_def same_tree_stat[OF assms])

lemma same_tree_ready:
  assumes "same_tree fs fs'"
  shows "is_ready_to_run fs' = is_ready_to_run fs" "belongs_to_tree fs' = belongs_to_tree fs"
  by (auto simp: fun_eq_iff is_ready_to_run_def belongs_to_tree_def
      same_tree_tests[OF assms] same_tree_stat[OF assms] split: option.splits)

lemma same_tree_filter:
  assumes "same_tree fs fs'"
  shows "filter_dependencies fs' node xs = filter_dependencies fs node xs"
  by (induction xs)
    (simp_all add: same_tree_ready[OF assms] same_tree_stat[OF assms]
      cong: sum.case_cong option.case_cong if_cong)

lemma same_tree_listdir:
  assumes "same_tree fs fs'"
  shows "(case os_listdir fs p of
            Inl e \<Rightarrow> os_listdir fs' p = Inl e
          | Inr xs \<Rightarrow> (\<exists>xs'. os_listdir fs' p = Inr xs' \<and> mset xs' = mset xs))"
  using assms
  by (auto simp: os_listdir_def same_tree_stat[OF assms] same_tree_def
      split: sum.splits inode.splits)

lemma filter_dependencies_char:
  "filter_dependencies fs node xs =
     (if \<exists>x \<in> set xs. raises fs node x then Inl AssertionError
      else Inr (map the (filter (keeps fs node) xs)))"
proof (induction xs)
  case Nil
  then show ?case by simp
next
  case (Cons x xs)
  show ?case
  proof (cases x)
    case None
    then have "\<not> raises fs node x" "\<not> keeps fs node x" by (simp_all add: raises_def keeps_def)
    with None Cons show ?thesis by simp
  next
    case (Some y)
    show ?thesis
    proof (cases "is_ready_to_run fs (Some (os_path_realpath fs y))")
      case False
      with Some have "\<not> raises fs node x" "\<not> keeps fs node x"
        by (simp_all add: raises_def keeps_def)
      with False Some Cons show ?thesis by simp
    next
      case True
      show ?thesis
      proof (cases "belongs_to_tree fs y node")
        case (Inl e)
        then have "e = AssertionError" by (auto simp: belongs_to_tree_def split: if_splits)
        moreover from Inl True Some have "raises fs node x" by (simp add: raises_def)
        ultimately show ?thesis using Inl True Some by simp
      next
        case (Inr b)
        with True Some have r: "\<not> raises fs node x" and k: "keeps fs node x = b"
          by (simp_all add: raises_def keeps_def)
        show ?thesis
        proof (cases "\<exists>x \<in> set xs. raises fs node x")
          case True
          with Cons.IH \<open>is_ready_to_run fs (Some (os_path_realpath fs y))\<close> Some Inr
          show ?thesis by simp
        next
          case False
          with Cons.IH \<open>is_ready_to_run fs (Some (os_path_realpath fs y))\<close> Some Inr r k
          show ?thesis by simp
        qed
      qed
    qed
  qed
qed

lemma filter_dependencies_perm:
  assumes "mset xs' = mset xs"
  shows "(case filter_dependencies fs node xs of
            Inl e \<Rightarrow> \<exists>e'. filter_dependencies fs node xs' = Inl e'
          | Inr ys \<Rightarrow> (\<exists>ys'. filter_dependencies fs node xs' = Inr ys' \<and> mset ys' = mset ys))"
proof -
  from assms have s: "set xs' = set xs" by (rule mset_eq_setD)
  have "mset (map the (filter (keeps fs node) xs')) = mset (map the (filter (keeps fs node) xs))"
    using assms by simp
  with s show ?thesis by (simp add: filter_dependencies_char)
qed

lemma dependency_links_perm:
  assumes "same_tree fs fs'"
  shows "(case dependency_links fs n of
            Inl e \<Rightarrow> dependency_links fs' n = Inl e
          | Inr l \<Rightarrow> (\<exists>l'. dependency_links fs' n = Inr l' \<and> mset l' = mset l))"
proof (cases "os_path_isdir fs (n @ ''/__/dep'')")
  case False
  then show ?thesis by (simp add: dependency_links_def same_tree_tests[OF assms])
next
  case True
  show ?thesis
  proof (cases "os_listdir fs (n @ ''/__/dep'')")
    case (Inl e)
    with same_tree_listdir[OF assms, of "n @ ''/__/dep''"] True show ?thesis
      by (simp add: dependency_links_def same_tree_tests[OF assms])
  next
    case (Inr xs)
    with same_tree_listdir[OF assms, of "n @ ''/__/dep''"] obtain xs' where
      "os_listdir fs' (n @ ''/__/dep'') = Inr xs'" "mset xs' = mset xs" by auto
    with Inr True show ?thesis
      by (simp add: dependency_links_def same_tree_tests[OF assms] same_tree_stat[OF assms])
  qed
qed

lemma subdirectories_perm:
  assumes "same_tree fs fs'" and "mset xs' = mset xs"
  shows "mset (subdirectories fs' child xs') = mset (subdirectories fs child xs)"
  using assms(2) by (simp add: subdirectories_def same_tree_tests[OF assms(1)])

lemma visit_perm:
  assumes t: "same_tree fs fs'" and v: "visit fs node recursive (parent, child) = (out, r)"
  shows "\<exists>out' r'. visit fs' node recursive (parent, child) = (out', r')
           \<and> map normal out' = map normal out
           \<and> (case r of Inl e \<Rightarrow> \<exists>e'. r' = Inl e'
               | Inr new \<Rightarrow> \<exists>new'. r' = Inr new' \<and> mset new' = mset new)"
proof (cases "dependency_links fs child")
  case (Inl e)
  with dependency_links_perm[OF t, of child] have "dependency_links fs' child = Inl e" by simp
  with Inl v show ?thesis by (auto simp: visit_def simp del: filter_dependencies.simps)
next
  case l: (Inr l)
  with dependency_links_perm[OF t, of child] obtain l' where
    l': "dependency_links fs' child = Inr l'" and ml: "mset l' = mset l" by auto
  from ml have mp: "mset (parent # map Some l') = mset (parent # map Some l)" by simp
  have fp: "case filter_dependencies fs node (parent # map Some l) of
        Inl e \<Rightarrow> \<exists>e'. filter_dependencies fs' node (parent # map Some l') = Inl e'
      | Inr ys \<Rightarrow> (\<exists>ys'. filter_dependencies fs' node (parent # map Some l') = Inr ys'
                    \<and> mset ys' = mset ys)"
    unfolding same_tree_filter[OF t] by (rule filter_dependencies_perm[OF mp])
  show ?thesis
  proof (cases "filter_dependencies fs node (parent # map Some l)")
    case (Inl e)
    with fp obtain e' where "filter_dependencies fs' node (parent # map Some l') = Inl e'"
      by (auto simp del: filter_dependencies.simps)
    with Inl l l' v show ?thesis by (auto simp: visit_def simp del: filter_dependencies.simps)
  next
    case d: (Inr deps)
    with fp obtain deps' where
      d': "filter_dependencies fs' node (parent # map Some l') = Inr deps'"
      and md: "mset deps' = mset deps"
      by (auto simp del: filter_dependencies.simps)
    let ?c = "if is_ready_to_run fs (Some (os_path_realpath fs child))
              then belongs_to_tree fs child node else Inr False"
    have c': "(if is_ready_to_run fs' (Some (os_path_realpath fs' child))
              then belongs_to_tree fs' child node else Inr False) = ?c"
      by (simp add: same_tree_ready[OF t] same_tree_stat[OF t])
    show ?thesis
    proof (cases ?c)
      case (Inl e)
      with c' l l' d d' v show ?thesis by (auto simp: visit_def simp del: filter_dependencies.simps)
    next
      case b: (Inr b)
      let ?out = "if b then [(deps, child)] else []"
      let ?out' = "if b then [(deps', child)] else []"
      have n: "map normal ?out' = map normal ?out" by (simp add: normal_def md)
      show ?thesis
      proof (cases recursive)
        case False
        with b c' l l' d d' v n show ?thesis by (auto simp: visit_def Let_def simp del: filter_dependencies.simps)
      next
        case True
        show ?thesis
        proof (cases "os_listdir fs child")
          case (Inl e)
          with same_tree_listdir[OF t, of child] have "os_listdir fs' child = Inl e" by simp
          with Inl True b c' l l' d d' v n show ?thesis by (auto simp: visit_def Let_def simp del: filter_dependencies.simps)
        next
          case (Inr xs)
          with same_tree_listdir[OF t, of child] obtain xs' where
            x': "os_listdir fs' child = Inr xs'" and mx: "mset xs' = mset xs" by auto
          from subdirectories_perm[OF t mx]
          have "mset (subdirectories fs' child xs') = mset (subdirectories fs child xs)" .
          with Inr x' True b c' l l' d d' v n show ?thesis by (auto simp: visit_def Let_def simp del: filter_dependencies.simps)
        qed
      qed
    qed
  qed
qed

lemma visited_empty: "visited fs node recursive {} = {}"
proof -
  have "it \<in> visited fs node recursive {} \<Longrightarrow> False" for it
    by (induction rule: visited.induct) auto
  then show ?thesis by blast
qed

lemma visited_same_subset:
  assumes t: "same_tree fs fs'"
  shows "visited fs node recursive Q \<subseteq> visited fs' node recursive Q"
proof
  fix it assume "it \<in> visited fs node recursive Q"
  then show "it \<in> visited fs' node recursive Q"
  proof (induction rule: visited.induct)
    case (start it)
    then show ?case by (rule visited.start)
  next
    case (step it out new it')
    obtain parent child where it: "it = (parent, child)" by (cases it)
    from visit_perm[OF t step(2)[unfolded it]] obtain out' new' where
      "visit fs' node recursive (parent, child) = (out', Inr new')" "mset new' = mset new"
      by auto
    with step(3) it have "visit fs' node recursive it = (out', Inr new')" "it' \<in> set new'"
      using mset_eq_setD by auto
    with step.IH show ?case by (rule visited.step)
  qed
qed

lemma visited_same:
  "same_tree fs fs' \<Longrightarrow> visited fs' node recursive Q = visited fs node recursive Q"
  using visited_same_subset[of fs fs'] visited_same_subset[of fs' fs] same_tree_sym
  by blast

lemma completes_same:
  assumes "same_tree fs fs'"
  shows "completes fs' node recursive it = completes fs node recursive it"
proof -
  have "completes fs node recursive it \<Longrightarrow> completes fs' node recursive it"
    if t: "same_tree fs fs'" for fs fs'
  proof -
    assume "completes fs node recursive it"
    then obtain out new where v: "visit fs node recursive it = (out, Inr new)"
      by (auto simp: completes_def)
    obtain parent child where it: "it = (parent, child)" by (cases it)
    from visit_perm[OF t v[unfolded it]] it show ?thesis by (auto simp: completes_def)
  qed
  from this[OF assms] this[OF same_tree_sym[OF assms]] show ?thesis by blast
qed

lemma yields_same:
  assumes t: "same_tree fs fs'"
  shows "normal ` yields fs' node recursive it = normal ` yields fs node recursive it"
proof -
  obtain parent child where it: "it = (parent, child)" by (cases it)
  obtain out r where v: "visit fs node recursive (parent, child) = (out, r)"
    by (cases "visit fs node recursive (parent, child)")
  from visit_perm[OF t v] obtain out' r' where
    "visit fs' node recursive (parent, child) = (out', r')" "map normal out' = map normal out"
    by blast
  with v it have "set (map normal (fst (visit fs' node recursive it)))
      = set (map normal (fst (visit fs node recursive it)))" by simp
  then show ?thesis by (simp add: yields_def)
qed

lemma find_loop_result:
  "find_loop fs node recursive queue acc = Some res \<Longrightarrow>
     (snd res = None \<longleftrightarrow> (\<forall>it \<in> visited fs node recursive (set queue). completes fs node recursive it))
   \<and> (snd res = None \<longrightarrow>
        set (fst res) = set acc \<union> (\<Union>it \<in> visited fs node recursive (set queue). yields fs node recursive it))"
proof (induction rule: find_loop.raw_induct[rotated 1, consumes 1])
  case (1 find_loop' fs node recursive queue acc res)
  show ?case
  proof (cases queue)
    case Nil
    with 1(2) show ?thesis by (auto simp: visited_empty)
  next
    case (Cons it rest)
    obtain out r where v: "visit fs node recursive it = (out, r)"
      by (cases "visit fs node recursive it")
    have itv: "it \<in> visited fs node recursive (set queue)"
      by (simp add: Cons visited.start)
    show ?thesis
    proof (cases r)
      case (Inl e)
      with 1(2) Cons v have "res = (acc @ out, Some e)" by simp
      moreover from v Inl have "\<not> completes fs node recursive it" by (simp add: completes_def)
      ultimately show ?thesis using itv by auto
    next
      case (Inr new)
      with 1(2) Cons v have "find_loop' fs node recursive (rest @ new) (acc @ out) = Some res"
        by simp
      note IH = 1(1)[OF this]
      have V: "visited fs node recursive (set queue)
          = insert it (visited fs node recursive (set (rest @ new)))"
        using visited_Cons[of fs node recursive it out new rest] v Inr Cons by simp
      have c: "completes fs node recursive it" using v Inr by (simp add: completes_def)
      have y: "yields fs node recursive it = set out" by (simp add: yields_def v)
      from IH c show ?thesis unfolding V by (auto simp: y)
    qed
  qed
qed

lemma unreadable_valid: "valid_fs fs_unreadable"
  unfolding fs_unreadable_def by (rule valid_fs_of) code_simp

text \<open>
  C7 as the specification states it fails on a filesystem state on which the traversal
  raises: the pairs yielded before the error depend on the order of the listing. With
  \<^verbatim>\<open>/r/z\<close> unreadable, the order \<^verbatim>\<open>__, a, z\<close> yields \<^verbatim>\<open>/r\<close> and \<^verbatim>\<open>/r/a\<close> before
  \<^verbatim>\<open>os.listdir\<close> raises for \<^verbatim>\<open>/r/z\<close>, and the order \<^verbatim>\<open>z, a, __\<close> yields only \<^verbatim>\<open>/r\<close>.
\<close>

theorem discovery_order_counterexample:
  "valid_fs fs_unreadable \<and> (\<forall>xs :: string list. mset (rev xs) = mset xs)
   \<and> find_dependencies fs_unreadable ''/r'' True
        = Some ([([], ''/r''), ([''/r''], ''/r/a'')], Some (OSError EACCES))
   \<and> find_dependencies (fs_unreadable\<lparr>listing_order := rev\<rparr>) ''/r'' True
        = Some ([([], ''/r'')], Some (OSError EACCES))
   \<and> normal ` set [([], ''/r''), ([''/r''], ''/r/a'')] \<noteq> normal ` set [([], ''/r'')]"
proof (intro conjI)
  show "valid_fs fs_unreadable" by (rule unreadable_valid)
next
  show "\<forall>xs :: string list. mset (rev xs) = mset xs" by simp
next
  show "find_dependencies fs_unreadable ''/r'' True
        = Some ([([], ''/r''), ([''/r''], ''/r/a'')], Some (OSError EACCES))"
    by code_simp
next
  show "find_dependencies (fs_unreadable\<lparr>listing_order := rev\<rparr>) ''/r'' True
        = Some ([([], ''/r'')], Some (OSError EACCES))"
    by code_simp
next
  show "normal ` set [([], ''/r''), ([''/r''], ''/r/a'')] \<noteq> normal ` set [([], ''/r'')]"
    by (simp add: normal_def)
qed

text \<open>
  C7, amended. When only the order in which directories are listed changes, both runs
  end, both raise or neither does, and when neither raises they yield the same set of
  pairs, the dependencies of a pair taken without their order.
\<close>

theorem discovery_order_independent:
  assumes v: "valid_fs fs" and o: "\<forall>xs. mset (ord xs) = mset xs"
  shows "\<exists>pairs err pairs' err'.
      find_dependencies fs node recursive = Some (pairs, err)
    \<and> find_dependencies (fs\<lparr>listing_order := ord\<rparr>) node recursive = Some (pairs', err')
    \<and> (err = None \<longleftrightarrow> err' = None)
    \<and> (err = None \<longrightarrow> normal ` set pairs = normal ` set pairs')"
proof -
  let ?fs' = "fs\<lparr>listing_order := ord\<rparr>"
  from v o have t: "same_tree fs ?fs'" by (simp add: same_tree_def valid_fs_def)
  from v o have v': "valid_fs ?fs'" by (simp add: valid_fs_def)
  show ?thesis
  proof (cases "os_path_isdir fs node")
    case False
    then show ?thesis by (simp add: find_dependencies_def same_tree_tests[OF t])
  next
    case True
    let ?Q = "[(None, node)] :: item list"
    from find_loop_terminates[OF v, of ?Q node recursive "[]"] True
    obtain pairs err where r: "find_loop fs node recursive ?Q [] = Some (pairs, err)" by auto
    from find_loop_terminates[OF v', of ?Q node recursive "[]"] True
    obtain pairs' err' where r': "find_loop ?fs' node recursive ?Q [] = Some (pairs', err')"
      by (auto simp: same_tree_tests[OF t])
    note R = find_loop_result[OF r] and R' = find_loop_result[OF r']
    have V: "visited ?fs' node recursive {(None, node)} = visited fs node recursive {(None, node)}"
      by (rule visited_same[OF t])
    have e: "err = None \<longleftrightarrow> err' = None"
      using R R' by (simp add: V completes_same[OF t])
    have "normal ` set pairs = normal ` set pairs'" if "err = None"
    proof -
      from that e have "err' = None" by simp
      with R' have "normal ` set pairs'
          = (\<Union>it \<in> visited fs node recursive {(None, node)}. normal ` yields ?fs' node recursive it)"
        by (simp add: V image_UN)
      also have "\<dots> = (\<Union>it \<in> visited fs node recursive {(None, node)}. normal ` yields fs node recursive it)"
        by (simp add: yields_same[OF t])
      also from that R have "\<dots> = normal ` set pairs" by (simp add: image_UN)
      finally show ?thesis by simp
    qed
    with e r r' True show ?thesis
      by (simp add: find_dependencies_def same_tree_tests[OF t])
  qed
qed

lemma fs_dep_run_rev:
  "find_dependencies (fs_dep\<lparr>listing_order := rev\<rparr>) ''/r'' True
     = Some ([([''/r/a''], ''/r/b''), ([], ''/r/a'')], None)"
  by code_simp

theorem discovery_order_independent_witness:
  "valid_fs fs_dep \<and> (\<forall>xs :: string list. mset (rev xs) = mset xs)
   \<and> find_dependencies fs_dep ''/r'' True = Some ([([], ''/r/a''), ([''/r/a''], ''/r/b'')], None)
   \<and> find_dependencies (fs_dep\<lparr>listing_order := rev\<rparr>) ''/r'' True
        = Some ([([''/r/a''], ''/r/b''), ([], ''/r/a'')], None)
   \<and> normal ` set [([], ''/r/a''), ([''/r/a''], ''/r/b'')]
        = normal ` set [([''/r/a''], ''/r/b''), ([], ''/r/a'')]"
proof -
  have o: "\<forall>xs :: string list. mset (rev xs) = mset xs" by simp
  from discovery_order_independent[OF dep_valid o, of "''/r''" True]
  have "normal ` set [([], ''/r/a''), ([''/r/a''], ''/r/b'')]
        = normal ` set [([''/r/a''], ''/r/b''), ([], ''/r/a'')]"
    unfolding fs_dep_run fs_dep_run_rev by simp
  with dep_valid o fs_dep_run fs_dep_run_rev show ?thesis by (intro conjI)
qed

end
